theory Spec2Isabelle
  imports Main "HOL-Library.Char_ord" "HOL-Library.List_Lexorder" "HOL-Library.AList"
    "HOL-Library.Multiset"
begin

section \<open>Data model\<close>

text \<open>
  The course catalog of \<^verbatim>\<open>EnhancementTwo.cpp\<close>. A \<^verbatim>\<open>Course\<close> object lives on the
  heap and is shared by pointer between the binary search tree and the hash map
  \<^verbatim>\<open>courseMap\<close>, so the model has an explicit store from addresses to courses: the tree
  and the map hold addresses. A null \<^verbatim>\<open>Course*\<close> is \<open>None\<close>, a null
  \<^verbatim>\<open>unique_ptr<Node>\<close> is \<open>Null\<close>.
\<close>

type_synonym addr = nat

record Course =
  courseId :: string
  courseTitle :: string
  prereqs :: "string list"
  dependentCourses :: "string list"
  isVisited :: bool
  isProcessing :: bool

type_synonym store = "addr \<Rightarrow> Course"

datatype Node = Null | Node addr Node Node

text \<open>
  \<^verbatim>\<open>unordered_map<string, Course*>\<close>: an association list with distinct keys. The order
  of the list stands for the iteration order of the hash map, which C++ leaves
  unspecified; no theorem below constrains it.
\<close>

record BinarySearchTree =
  root :: Node
  courseMap :: "(string \<times> addr) list"

definition empty_tree :: BinarySearchTree where
  "empty_tree = \<lparr>root = Null, courseMap = []\<rparr>"

text \<open>
  The exceptions of the source as values: \<^verbatim>\<open>invalid_argument("Cannot insert null course")\<close>,
  \<^verbatim>\<open>invalid_argument("Invalid course ID format: ...")\<close>,
  \<^verbatim>\<open>invalid_argument("Course not found: ...")\<close>,
  \<^verbatim>\<open>runtime_error("Circular prerequisite dependency detected for: ...")\<close>, and the three
  \<^verbatim>\<open>runtime_error\<close>s of prerequisite validation
  (\<^verbatim>\<open>"Self-reference detected: ..."\<close>, \<^verbatim>\<open>"Duplicate prerequisite detected: ..."\<close>,
  \<^verbatim>\<open>"Invalid prerequisite: ... for course ..."\<close>), which carry the course and the
  prerequisite they name.
\<close>

datatype error =
    NullCourse
  | InvalidKey string
  | NotFound string
  | CycleDetected string
  | SelfReference string
  | DuplicatePrerequisite string string
  | UnknownPrerequisite string string

section \<open>Key validation\<close>

text \<open>
  \<^verbatim>\<open>isalpha\<close> and \<^verbatim>\<open>isdigit\<close> of the C library in the "C" locale, on the byte value of
  the character: the ASCII letters and the ASCII digits. A byte above 127 is neither (the
  source passes a plain \<^verbatim>\<open>char\<close>, for which the C standard leaves the call undefined
  when the value is negative; the common libraries answer 0).
\<close>

definition isalpha :: "char \<Rightarrow> bool" where
  "isalpha c = (let n = (of_char c :: nat) in (65 \<le> n \<and> n \<le> 90) \<or> (97 \<le> n \<and> n \<le> 122))"

definition isdigit :: "char \<Rightarrow> bool" where
  "isdigit c = (let n = (of_char c :: nat) in 48 \<le> n \<and> n \<le> 57)"

text \<open>The first loop of \<^verbatim>\<open>isValidCourseId\<close>: advance \<open>i\<close> over the leading letters.\<close>

function scan_letters :: "string \<Rightarrow> nat \<Rightarrow> nat" where
  "scan_letters cid i =
     (if i < length cid \<and> isalpha (cid ! i) then scan_letters cid (Suc i) else i)"
  by pat_completeness auto
termination
  by (relation "measure (\<lambda>(cid, i). length cid - i)") auto

declare scan_letters.simps [simp del]

text \<open>
  The second loop: every remaining character must be a digit (\<open>None\<close> is the
  \<^verbatim>\<open>return false\<close> inside the loop); the result is \<^verbatim>\<open>numCount\<close>.
\<close>

function scan_digits :: "string \<Rightarrow> nat \<Rightarrow> nat \<Rightarrow> nat option" where
  "scan_digits cid i numCount =
     (if i < length cid
      then (if \<not> isdigit (cid ! i) then None
            else scan_digits cid (Suc i) (Suc numCount))
      else Some numCount)"
  by pat_completeness auto
termination
  by (relation "measure (\<lambda>(cid, i, numCount). length cid - i)") auto

declare scan_digits.simps [simp del]

definition isValidCourseId :: "string \<Rightarrow> bool" where
  "isValidCourseId cid =
     (if cid = [] \<or> length cid > 20 then False
      else let i = scan_letters cid 0 in
        if i < 2 \<or> i > 4 then False
        else (case scan_digits cid i 0 of
                None \<Rightarrow> False
              | Some numCount \<Rightarrow> if numCount < 3 then False else True))"

text \<open>
  The wording of the specification: 2 to 4 alphabetic characters followed by 3 or more
  digit characters, nothing else, and at most 20 characters in all.
\<close>

definition structurally_valid :: "string \<Rightarrow> bool" where
  "structurally_valid k \<longleftrightarrow>
     (\<exists>letters digits. k = letters @ digits
        \<and> 2 \<le> length letters \<and> length letters \<le> 4 \<and> list_all isalpha letters
        \<and> 3 \<le> length digits \<and> list_all isdigit digits)
     \<and> length k \<le> 20"

section \<open>Insertion, lookup and ordered enumeration\<close>

text \<open>
  \<^verbatim>\<open>addNode\<close> is only called on a non-null node (\<^verbatim>\<open>Insert\<close> tests the root, the
  recursion tests the child), so the equation for \<open>Null\<close> is never reached. The order
  \<open><\<close> of \<^verbatim>\<open>std::string\<close> is the lexicographic order on the byte values, which is the
  order of \<open>string\<close> here.
\<close>

fun addNode :: "store \<Rightarrow> Node \<Rightarrow> addr \<Rightarrow> Node" where
  "addNode h (Node c l r) course =
     (if courseId (h course) < courseId (h c)
      then (if l = Null then Node c (Node course Null Null) r
            else Node c (addNode h l course) r)
      else (if r = Null then Node c l (Node course Null Null)
            else Node c l (addNode h r course)))"
| "addNode h Null course = Null"

text \<open>
  \<^verbatim>\<open>Insert\<close> returns the exception it throws, if any, and the catalog after the call.
\<close>

definition Insert :: "store \<Rightarrow> addr option \<Rightarrow> BinarySearchTree \<Rightarrow> error option \<times> BinarySearchTree" where
  "Insert h course t =
     (case course of
        None \<Rightarrow> (Some NullCourse, t)
      | Some c \<Rightarrow>
          if \<not> isValidCourseId (courseId (h c)) then (Some (InvalidKey (courseId (h c))), t)
          else
            let t1 = t\<lparr>courseMap := AList.update (courseId (h c)) c (courseMap t)\<rparr>
            in (None,
                if root t1 = Null then t1\<lparr>root := Node c Null Null\<rparr>
                else t1\<lparr>root := addNode h (root t1) c\<rparr>))"

definition FindCourse :: "BinarySearchTree \<Rightarrow> string \<Rightarrow> addr option" where
  "FindCourse t k = map_of (courseMap t) k"

text \<open>
  The in-order traversal of \<^verbatim>\<open>printSampleSchedule\<close>; the output is the list of the
  printed lines, each a course id and a course title.
\<close>

fun printSampleSchedule :: "store \<Rightarrow> Node \<Rightarrow> (string \<times> string) list" where
  "printSampleSchedule h Null = []"
| "printSampleSchedule h (Node c l r) =
     printSampleSchedule h l @ [(courseId (h c), courseTitle (h c))] @ printSampleSchedule h r"

definition enumerate_keys :: "store \<Rightarrow> BinarySearchTree \<Rightarrow> string list" where
  "enumerate_keys h t = map fst (printSampleSchedule h (root t))"

text \<open>
  A sequence of insertions: the courses at the given addresses are inserted one after
  the other; an insertion that throws leaves the catalog as it was and the sequence goes
  on.
\<close>

fun insert_all :: "store \<Rightarrow> addr list \<Rightarrow> BinarySearchTree \<Rightarrow> BinarySearchTree" where
  "insert_all h [] t = t"
| "insert_all h (c # cs) t = insert_all h cs (snd (Insert h (Some c) t))"

section \<open>Dependency graph\<close>

text \<open>
  \<^verbatim>\<open>BuildDependencyGraph\<close> writes to the courses through the pointers of the hash map:
  the first loop clears every \<^verbatim>\<open>dependentCourses\<close>, the second pushes the id of each
  course onto the \<^verbatim>\<open>dependentCourses\<close> of every prerequisite that \<^verbatim>\<open>FindCourse\<close>
  resolves.
\<close>

fun clear_dependents :: "(string \<times> addr) list \<Rightarrow> store \<Rightarrow> store" where
  "clear_dependents [] h = h"
| "clear_dependents ((k, c) # rest) h =
     clear_dependents rest (h(c := (h c)\<lparr>dependentCourses := []\<rparr>))"

fun add_dependents :: "BinarySearchTree \<Rightarrow> addr \<Rightarrow> string list \<Rightarrow> store \<Rightarrow> store" where
  "add_dependents t course [] h = h"
| "add_dependents t course (prereqId # rest) h =
     (case FindCourse t prereqId of
        None \<Rightarrow> add_dependents t course rest h
      | Some prereq \<Rightarrow>
          add_dependents t course rest
            (h(prereq := (h prereq)\<lparr>dependentCourses :=
                 dependentCourses (h prereq) @ [courseId (h course)]\<rparr>)))"

fun build_dependents :: "BinarySearchTree \<Rightarrow> (string \<times> addr) list \<Rightarrow> store \<Rightarrow> store" where
  "build_dependents t [] h = h"
| "build_dependents t ((k, course) # rest) h =
     build_dependents t rest (add_dependents t course (prereqs (h course)) h)"

definition BuildDependencyGraph :: "BinarySearchTree \<Rightarrow> store \<Rightarrow> store" where
  "BuildDependencyGraph t h = build_dependents t (courseMap t) (clear_dependents (courseMap t) h)"

section \<open>Cycle detection\<close>

text \<open>
  The recursive \<^verbatim>\<open>hasCycle\<close> and its loop over \<^verbatim>\<open>course->prereqs\<close>. The two
  \<^verbatim>\<open>unordered_set\<close>s passed by reference are returned with the result. The first
  argument bounds the depth of the recursion: \<open>None\<close> means the bound was reached before
  the call returned.
\<close>

function hasCycle ::
    "nat \<Rightarrow> store \<Rightarrow> BinarySearchTree \<Rightarrow> addr option \<Rightarrow> string set \<times> string set
       \<Rightarrow> (bool \<times> string set \<times> string set) option"
  and hasCycle_loop ::
    "nat \<Rightarrow> store \<Rightarrow> BinarySearchTree \<Rightarrow> addr \<Rightarrow> string list \<Rightarrow> string set \<times> string set
       \<Rightarrow> (bool \<times> string set \<times> string set) option"
where
  "hasCycle n h t None (visited, recursionStack) = Some (False, visited, recursionStack)"
| "hasCycle 0 h t (Some course) (visited, recursionStack) = None"
| "hasCycle (Suc n) h t (Some course) (visited, recursionStack) =
     hasCycle_loop n h t course (prereqs (h course))
       (insert (courseId (h course)) visited, insert (courseId (h course)) recursionStack)"
| "hasCycle_loop n h t course [] (visited, recursionStack) =
     Some (False, visited, recursionStack - {courseId (h course)})"
| "hasCycle_loop n h t course (prereqId # rest) (visited, recursionStack) =
     (case FindCourse t prereqId of
        None \<Rightarrow> hasCycle_loop n h t course rest (visited, recursionStack)
      | Some prereq \<Rightarrow>
          if prereqId \<in> recursionStack then Some (True, visited, recursionStack)
          else if prereqId \<notin> visited then
            (case hasCycle n h t (Some prereq) (visited, recursionStack) of
               None \<Rightarrow> None
             | Some (found, visited', recursionStack') \<Rightarrow>
                 if found then Some (True, visited', recursionStack')
                 else hasCycle_loop n h t course rest (visited', recursionStack'))
          else hasCycle_loop n h t course rest (visited, recursionStack))"
  by pat_completeness auto
termination
  by (relation "inv_image (less_than <*lex*> less_than) (\<lambda>x. case x of
          Inl (n, h, t, course, vs) \<Rightarrow> (n, 0)
        | Inr (n, h, t, course, ps, vs) \<Rightarrow> (n, Suc (length ps)))") auto

text \<open>
  \<^verbatim>\<open>HasPrerequisiteCycle\<close>. The recursion enters a course only when its id is not yet in
  \<^verbatim>\<open>visited\<close>, so its depth is at most the number of entries of the hash map.
\<close>

definition HasPrerequisiteCycle :: "store \<Rightarrow> BinarySearchTree \<Rightarrow> string \<Rightarrow> (error + bool) option" where
  "HasPrerequisiteCycle h t k =
     (case FindCourse t k of
        None \<Rightarrow> Some (Inl (NotFound k))
      | Some course \<Rightarrow>
          map_option (\<lambda>(found, visited, recursionStack). Inr found)
            (hasCycle (length (courseMap t)) h t (Some course) ({}, {})))"

section \<open>Topological order\<close>

text \<open>
  \<^verbatim>\<open>topologicalSortUtil\<close>; the \<^verbatim>\<open>stack<Course*>\<close> is a list with its top first. The
  loop over the prerequisites is the same code in \<^verbatim>\<open>topologicalSortUtil\<close> and in
  \<^verbatim>\<open>GetPrerequisiteOrder\<close>. The first argument bounds the depth of the recursion, as
  for \<^verbatim>\<open>hasCycle\<close>.
\<close>

function topologicalSortUtil ::
    "nat \<Rightarrow> store \<Rightarrow> BinarySearchTree \<Rightarrow> addr \<Rightarrow> string set \<times> addr list
       \<Rightarrow> (string set \<times> addr list) option"
  and visit_prereqs ::
    "nat \<Rightarrow> store \<Rightarrow> BinarySearchTree \<Rightarrow> string list \<Rightarrow> string set \<times> addr list
       \<Rightarrow> (string set \<times> addr list) option"
where
  "topologicalSortUtil 0 h t course (visited, Stack) = None"
| "topologicalSortUtil (Suc n) h t course (visited, Stack) =
     (case visit_prereqs n h t (prereqs (h course)) (insert (courseId (h course)) visited, Stack) of
        None \<Rightarrow> None
      | Some (visited', Stack') \<Rightarrow> Some (visited', course # Stack'))"
| "visit_prereqs n h t [] (visited, Stack) = Some (visited, Stack)"
| "visit_prereqs n h t (prereqId # rest) (visited, Stack) =
     (case FindCourse t prereqId of
        None \<Rightarrow> visit_prereqs n h t rest (visited, Stack)
      | Some prereq \<Rightarrow>
          if prereqId \<notin> visited then
            (case topologicalSortUtil n h t prereq (visited, Stack) of
               None \<Rightarrow> None
             | Some (visited', Stack') \<Rightarrow> visit_prereqs n h t rest (visited', Stack'))
          else visit_prereqs n h t rest (visited, Stack))"
  by pat_completeness auto
termination
  by (relation "inv_image (less_than <*lex*> less_than) (\<lambda>x. case x of
          Inl (n, h, t, course, vs) \<Rightarrow> (n, 0)
        | Inr (n, h, t, ps, vs) \<Rightarrow> (n, Suc (length ps)))") auto

text \<open>
  \<^verbatim>\<open>GetPrerequisiteOrder\<close>: popping the whole stack into \<^verbatim>\<open>result\<close> and reversing
  \<^verbatim>\<open>result\<close> gives the stack from bottom to top.
\<close>

definition GetPrerequisiteOrder ::
    "store \<Rightarrow> BinarySearchTree \<Rightarrow> string \<Rightarrow> (error + addr list) option" where
  "GetPrerequisiteOrder h t k =
     (case FindCourse t k of
        None \<Rightarrow> Some (Inl (NotFound k))
      | Some course \<Rightarrow>
          (case HasPrerequisiteCycle h t k of
             None \<Rightarrow> None
           | Some (Inl e) \<Rightarrow> Some (Inl e)
           | Some (Inr True) \<Rightarrow> Some (Inl (CycleDetected k))
           | Some (Inr False) \<Rightarrow>
               (case visit_prereqs (length (courseMap t)) h t (prereqs (h course)) ({}, []) of
                  None \<Rightarrow> None
                | Some (visited, Stack) \<Rightarrow> Some (Inr (rev Stack)))))"

section \<open>Prerequisite validation\<close>





section \<open>The build with the test harness\<close>

text \<open>
  \<^verbatim>\<open>EnhancementTwoTest.cpp\<close> has its own versions of several member functions; they
  carry the suffix \<open>_Test\<close> here. Functions that are the same code in both files
  (\<^verbatim>\<open>addNode\<close>, \<^verbatim>\<open>FindCourse\<close>, \<^verbatim>\<open>topologicalSortUtil\<close>, \<^verbatim>\<open>printSampleSchedule\<close>)
  are not repeated.
\<close>

subsection \<open>Key validation and insertion\<close>

definition validPrefixes :: "string list" where
  "validPrefixes =
     [''CIRC'', ''PATH'', ''DEEP'', ''MULT'', ''SPEC'', ''CASE'', ''SPACE'', ''EMPTY'',
      ''MAX'', ''DUP'', ''SELF'', ''CPX'', ''BRANCH'', ''CROSS'']"

text \<open>\<^verbatim>\<open>courseId.substr(0, prefix.length()) == prefix\<close> for one of the prefixes.\<close>

definition isTestCase :: "string \<Rightarrow> bool" where
  "isTestCase cid = list_ex (\<lambda>prefix. take (length prefix) cid = prefix) validPrefixes"

definition isValidCourseId_Test :: "string \<Rightarrow> bool" where
  "isValidCourseId_Test cid =
     (if isTestCase cid then True
      else if length cid < 5 \<or> length cid > 7 then False
      else let letterCount = scan_letters cid 0 in
        if letterCount < 2 \<or> letterCount > 4 then False
        else if length cid - letterCount < 3 then False
        else (case scan_digits cid letterCount 0 of None \<Rightarrow> False | Some n \<Rightarrow> True))"

definition Insert_Test :: "store \<Rightarrow> addr option \<Rightarrow> BinarySearchTree \<Rightarrow> error option \<times> BinarySearchTree" where
  "Insert_Test h course t =
     (case course of
        None \<Rightarrow> (Some NullCourse, t)
      | Some c \<Rightarrow>
          if \<not> isValidCourseId_Test (courseId (h c)) then (Some (InvalidKey (courseId (h c))), t)
          else
            let t1 = t\<lparr>courseMap := AList.update (courseId (h c)) c (courseMap t)\<rparr>
            in (None,
                if root t1 = Null then t1\<lparr>root := Node c Null Null\<rparr>
                else t1\<lparr>root := addNode h (root t1) c\<rparr>))"

subsection \<open>Dependency graph\<close>

text \<open>
  The first loop of \<^verbatim>\<open>BuildDependencyGraph\<close> also resets the two traversal flags. The
  second loop first rewrites \<^verbatim>\<open>prereqs\<close> without repeated ids, keeping first
  occurrences, and then skips a prerequisite that resolves to a course with the same id.
\<close>

fun reset_courses :: "(string \<times> addr) list \<Rightarrow> store \<Rightarrow> store" where
  "reset_courses [] h = h"
| "reset_courses ((k, c) # rest) h =
     reset_courses rest
       (h(c := (h c)\<lparr>dependentCourses := [], isVisited := False, isProcessing := False\<rparr>))"

fun uniquePrereqs :: "string set \<Rightarrow> string list \<Rightarrow> string list" where
  "uniquePrereqs seen [] = []"
| "uniquePrereqs seen (prereqId # rest) =
     (if prereqId \<notin> seen then prereqId # uniquePrereqs (insert prereqId seen) rest
      else uniquePrereqs seen rest)"

fun add_dependents_Test :: "BinarySearchTree \<Rightarrow> addr \<Rightarrow> string list \<Rightarrow> store \<Rightarrow> store" where
  "add_dependents_Test t course [] h = h"
| "add_dependents_Test t course (prereqId # rest) h =
     (case FindCourse t prereqId of
        None \<Rightarrow> add_dependents_Test t course rest h
      | Some prereq \<Rightarrow>
          if courseId (h prereq) \<noteq> courseId (h course) then
            add_dependents_Test t course rest
              (h(prereq := (h prereq)\<lparr>dependentCourses :=
                   dependentCourses (h prereq) @ [courseId (h course)]\<rparr>))
          else add_dependents_Test t course rest h)"

fun build_dependents_Test :: "BinarySearchTree \<Rightarrow> (string \<times> addr) list \<Rightarrow> store \<Rightarrow> store" where
  "build_dependents_Test t [] h = h"
| "build_dependents_Test t ((k, course) # rest) h =
     (let h1 = h(course := (h course)\<lparr>prereqs := uniquePrereqs {} (prereqs (h course))\<rparr>)
      in build_dependents_Test t rest (add_dependents_Test t course (prereqs (h1 course)) h1))"

definition BuildDependencyGraph_Test :: "BinarySearchTree \<Rightarrow> store \<Rightarrow> store" where
  "BuildDependencyGraph_Test t h =
     build_dependents_Test t (courseMap t) (reset_courses (courseMap t) h)"

subsection \<open>Prerequisite validation\<close>







subsection \<open>Cycle detection and topological order\<close>

text \<open>
  \<^verbatim>\<open>hasCycle\<close> writes the flag \<^verbatim>\<open>isProcessing\<close> of the courses it meets, so the store
  is passed through and returned.
\<close>

function hasCycle_Test ::
    "nat \<Rightarrow> BinarySearchTree \<Rightarrow> addr option \<Rightarrow> string set \<times> string set \<Rightarrow> store
       \<Rightarrow> ((bool \<times> string set \<times> string set) \<times> store) option"
  and hasCycle_loop_Test ::
    "nat \<Rightarrow> BinarySearchTree \<Rightarrow> addr \<Rightarrow> string list \<Rightarrow> string set \<times> string set \<Rightarrow> store
       \<Rightarrow> ((bool \<times> string set \<times> string set) \<times> store) option"
where
  "hasCycle_Test n t None (visited, recursionStack) h =
     Some ((False, visited, recursionStack), h)"
| "hasCycle_Test 0 t (Some course) (visited, recursionStack) h = None"
| "hasCycle_Test (Suc n) t (Some course) (visited, recursionStack) h =
     hasCycle_loop_Test n t course (prereqs (h course))
       (insert (courseId (h course)) visited, insert (courseId (h course)) recursionStack) h"
| "hasCycle_loop_Test n t course [] (visited, recursionStack) h =
     Some ((False, visited, recursionStack - {courseId (h course)}),
           h(course := (h course)\<lparr>isProcessing := False\<rparr>))"
| "hasCycle_loop_Test n t course (prereqId # rest) (visited, recursionStack) h =
     (case FindCourse t prereqId of
        None \<Rightarrow> hasCycle_loop_Test n t course rest (visited, recursionStack) h
      | Some prereq \<Rightarrow>
          if prereqId \<in> recursionStack then
            (let h1 = h(course := (h course)\<lparr>isProcessing := True\<rparr>)
             in Some ((True, visited, recursionStack),
                      h1(prereq := (h1 prereq)\<lparr>isProcessing := True\<rparr>)))
          else if prereqId \<notin> visited then
            (case hasCycle_Test n t (Some prereq) (visited, recursionStack)
                    (h(prereq := (h prereq)\<lparr>isProcessing := True\<rparr>)) of
               None \<Rightarrow> None
             | Some ((found, visited', recursionStack'), h2) \<Rightarrow>
                 if found then Some ((True, visited', recursionStack'), h2)
                 else hasCycle_loop_Test n t course rest (visited', recursionStack')
                        (h2(prereq := (h2 prereq)\<lparr>isProcessing := False\<rparr>)))
          else hasCycle_loop_Test n t course rest (visited, recursionStack) h)"
  by pat_completeness auto
termination
  by (relation "inv_image (less_than <*lex*> less_than) (\<lambda>x. case x of
          Inl (n, t, course, vs, h) \<Rightarrow> (n, 0)
        | Inr (n, t, course, ps, vs, h) \<Rightarrow> (n, Suc (length ps)))") auto

definition HasPrerequisiteCycle_Test ::
    "BinarySearchTree \<Rightarrow> string \<Rightarrow> store \<Rightarrow> ((error + bool) \<times> store) option" where
  "HasPrerequisiteCycle_Test t k h =
     (case FindCourse t k of
        None \<Rightarrow> Some (Inl (NotFound k), h)
      | Some course \<Rightarrow>
          map_option (\<lambda>((found, visited, recursionStack), h'). (Inr found, h'))
            (hasCycle_Test (length (courseMap t)) t (Some course) ({}, {}) h))"

text \<open>
  \<^verbatim>\<open>GetPrerequisiteOrder\<close> calls \<^verbatim>\<open>hasCycle\<close> itself. Its local function
  \<^verbatim>\<open>processPrerequisites\<close> is the code of \<^verbatim>\<open>topologicalSortUtil\<close> behind a test for a
  null pointer, and is only called with a pointer that \<^verbatim>\<open>FindCourse\<close> returned.
\<close>

definition GetPrerequisiteOrder_Test ::
    "BinarySearchTree \<Rightarrow> string \<Rightarrow> store \<Rightarrow> ((error + addr list) \<times> store) option" where
  "GetPrerequisiteOrder_Test t k h =
     (case FindCourse t k of
        None \<Rightarrow> Some (Inl (NotFound k), h)
      | Some course \<Rightarrow>
          (case hasCycle_Test (length (courseMap t)) t (Some course) ({}, {}) h of
             None \<Rightarrow> None
           | Some ((found, visited, recursionStack), h') \<Rightarrow>
               if found then Some (Inl (CycleDetected k), h')
               else
                 (case visit_prereqs (length (courseMap t)) h' t (prereqs (h' course)) ({}, []) of
                    None \<Rightarrow> None
                  | Some (visited', Stack) \<Rightarrow> Some (Inr (rev Stack), h'))))"

section \<open>Catalog invariant and the prerequisite graph\<close>

text \<open>
  What \<^verbatim>\<open>Insert\<close> establishes for the hash map: its keys are distinct and every entry
  \<open>(k, c)\<close> points to a course whose \<^verbatim>\<open>courseId\<close> is \<open>k\<close>. In \<^verbatim>\<open>EnhancementTwo.cpp\<close>
  every key has also passed \<^verbatim>\<open>isValidCourseId\<close>.
\<close>

definition map_ok :: "store \<Rightarrow> BinarySearchTree \<Rightarrow> bool" where
  "map_ok h t \<longleftrightarrow>
     distinct (map fst (courseMap t)) \<and> list_all (\<lambda>(k, c). courseId (h c) = k) (courseMap t)"

definition catalog_ok :: "store \<Rightarrow> BinarySearchTree \<Rightarrow> bool" where
  "catalog_ok h t \<longleftrightarrow>
     map_ok h t \<and> list_all (\<lambda>(k, c). isValidCourseId k) (courseMap t)"

text \<open>
  A prerequisite edge of the specification: from the key of a record of the catalog to
  one of its declared prerequisites that resolves to a record of the catalog.
\<close>

definition prereq_edges :: "store \<Rightarrow> BinarySearchTree \<Rightarrow> (string \<times> string) set" where
  "prereq_edges h t =
     {(a, b). \<exists>c. FindCourse t a = Some c \<and> b \<in> set (prereqs (h c)) \<and> FindCourse t b \<noteq> None}"

text \<open>A directed cycle of prerequisite edges can be reached from \<open>k\<close>.\<close>

definition cycle_reachable :: "store \<Rightarrow> BinarySearchTree \<Rightarrow> string \<Rightarrow> bool" where
  "cycle_reachable h t k \<longleftrightarrow>
     (\<exists>c. (k, c) \<in> (prereq_edges h t)\<^sup>* \<and> (c, c) \<in> (prereq_edges h t)\<^sup>+)"

text \<open>The ids of a list of courses given by their addresses.\<close>

definition course_ids :: "store \<Rightarrow> addr list \<Rightarrow> string list" where
  "course_ids h cs = map (\<lambda>c. courseId (h c)) cs"

text \<open>
  A stack, top first, that was filled in post-order for an edge relation: no element
  occurs twice and every successor of an element lies below it.
\<close>

fun post_order :: "('a \<times> 'a) set \<Rightarrow> 'a list \<Rightarrow> bool" where
  "post_order E [] = True"
| "post_order E (x # xs) = (x \<notin> set xs \<and> E `` {x} \<subseteq> set xs \<and> post_order E xs)"

text \<open>
  The invariant of the stack of \<^verbatim>\<open>topologicalSortUtil\<close>: every course on it has been
  visited, is a record of the catalog, and the ids are in post-order for the
  prerequisite edges.
\<close>

definition topo_inv :: "store \<Rightarrow> BinarySearchTree \<Rightarrow> string set \<Rightarrow> addr list \<Rightarrow> bool" where
  "topo_inv h t vis S \<longleftrightarrow>
     set (course_ids h S) \<subseteq> vis \<and> post_order (prereq_edges h t) (course_ids h S)
     \<and> (\<forall>p\<in>set S. FindCourse t (courseId (h p)) = Some p)"

text \<open>
  The courses of the tree in the order of the in-order traversal, and the search-tree
  invariant that \<^verbatim>\<open>addNode\<close> maintains: smaller ids to the left, equal and larger ids to
  the right.
\<close>

fun inorder :: "Node \<Rightarrow> addr list" where
  "inorder Null = []"
| "inorder (Node c l r) = inorder l @ [c] @ inorder r"

fun bst :: "store \<Rightarrow> Node \<Rightarrow> bool" where
  "bst h Null = True"
| "bst h (Node c l r) \<longleftrightarrow>
     bst h l \<and> bst h r
     \<and> list_all (\<lambda>x. courseId (h x) < courseId (h c)) (inorder l)
     \<and> list_all (\<lambda>x. courseId (h c) \<le> courseId (h x)) (inorder r)"

text \<open>The tree is a search tree and holds every course of the hash map.\<close>

definition tree_ok :: "store \<Rightarrow> BinarySearchTree \<Rightarrow> bool" where
  "tree_ok h t \<longleftrightarrow>
     bst h (root t) \<and> list_all (\<lambda>(k, c). c \<in> set (inorder (root t))) (courseMap t)"

text \<open>Two stores that agree on every field of every course but \<^verbatim>\<open>dependentCourses\<close>.\<close>

definition only_dependents_differ :: "store \<Rightarrow> store \<Rightarrow> bool" where
  "only_dependents_differ h h' \<longleftrightarrow>
     (\<forall>p. h' p = (h p)\<lparr>dependentCourses := dependentCourses (h' p)\<rparr>)"

text \<open>Two stores that agree on every field of every course but \<^verbatim>\<open>isProcessing\<close>.\<close>

definition only_isProcessing_differs :: "store \<Rightarrow> store \<Rightarrow> bool" where
  "only_isProcessing_differs h h' \<longleftrightarrow>
     (\<forall>p. h' p = (h p)\<lparr>isProcessing := isProcessing (h' p)\<rparr>)"

text \<open>Two stores with the same ids and the same prerequisite lists.\<close>

definition same_graph :: "store \<Rightarrow> store \<Rightarrow> bool" where
  "same_graph h h' \<longleftrightarrow> (\<forall>p. courseId (h' p) = courseId (h p) \<and> prereqs (h' p) = prereqs (h p))"

text \<open>The \<^verbatim>\<open>isProcessing\<close> flags of the given courses in the store that a call returned.\<close>

definition flags_after :: "('a \<times> store) option \<Rightarrow> addr list \<Rightarrow> bool list option" where
  "flags_after res cs = map_option (\<lambda>(r, h'). map (\<lambda>c. isProcessing (h' c)) cs) res"

text \<open>
  Two stores with the same ids and titles and, as sets, the same prerequisites for every
  course.
\<close>

definition same_ids_and_prereq_sets :: "store \<Rightarrow> store \<Rightarrow> bool" where
  "same_ids_and_prereq_sets h h' \<longleftrightarrow>
     (\<forall>p. courseId (h' p) = courseId (h p) \<and> courseTitle (h' p) = courseTitle (h p)
          \<and> set (prereqs (h' p)) = set (prereqs (h p)))"







section \<open>Example catalogs\<close>

text \<open>
  A course as \<^verbatim>\<open>loadDataStructure\<close> creates it: \<^verbatim>\<open>new Course(id, title)\<close>, then the
  prerequisites pushed onto \<^verbatim>\<open>prereqs\<close>.
\<close>

definition new_Course :: "string \<Rightarrow> string \<Rightarrow> string list \<Rightarrow> Course" where
  "new_Course k title ps =
     \<lparr>courseId = k, courseTitle = title, prereqs = ps, dependentCourses = [],
      isVisited = False, isProcessing = False\<rparr>"

text \<open>A chain: CS300 requires CS200, CS200 requires CS100.\<close>

definition chain_store :: store where
  "chain_store = (\<lambda>_. new_Course [] [] [])
     (0 := new_Course ''CS100'' ''Introduction'' [],
      1 := new_Course ''CS200'' ''Data Structures'' [''CS100''],
      2 := new_Course ''CS300'' ''Algorithms'' [''CS200''])"

definition chain_tree :: BinarySearchTree where
  "chain_tree = insert_all chain_store [1, 2, 0] empty_tree"

text \<open>A cycle: CS100 requires CS200 and CS200 requires CS100.\<close>

definition cycle_store :: store where
  "cycle_store = (\<lambda>_. new_Course [] [] [])
     (0 := new_Course ''CS100'' ''Introduction'' [''CS200''],
      1 := new_Course ''CS200'' ''Data Structures'' [''CS100''])"

definition cycle_tree :: BinarySearchTree where
  "cycle_tree = insert_all cycle_store [0, 1] empty_tree"

text \<open>Two courses with the same id, and a third one.\<close>

definition dup_store :: store where
  "dup_store = (\<lambda>_. new_Course [] [] [])
     (0 := new_Course ''CS101'' ''Introduction'' [],
      1 := new_Course ''CS101'' ''Introduction, again'' [''CS050''],
      2 := new_Course ''CS050'' ''Orientation'' [])"

text \<open>A course that lists itself as a prerequisite, inserted by the test-harness build.\<close>

definition self_store :: store where
  "self_store = (\<lambda>_. new_Course [] [] [])
     (0 := new_Course ''SELF100'' ''Self study'' [''SELF100''])"

definition self_tree :: BinarySearchTree where
  "self_tree = snd (Insert_Test self_store (Some 0) empty_tree)"





text \<open>Courses whose ids are not course ids.\<close>

definition invalid_store :: store where
  "invalid_store = (\<lambda>_. new_Course [] [] [])
     (0 := new_Course ''1'' ''One'' [],
      1 := new_Course ''ABCDEFGH1'' ''Long prefix'' [],
      2 := new_Course ''CS101'' ''Introduction'' [])"

section \<open>Key validation: the two scans\<close>

lemma scan_letters_takeWhile:
  "i \<le> length cid \<Longrightarrow> scan_letters cid i = i + length (takeWhile isalpha (drop i cid))"
proof (induction cid i rule: scan_letters.induct)
  case (1 cid i)
  show ?case
  proof (cases "i < length cid \<and> isalpha (cid ! i)")
    case True
    then have d: "drop i cid = cid ! i # drop (Suc i) cid"
      by (simp add: Cons_nth_drop_Suc)
    from True 1 have "scan_letters cid (Suc i) = Suc i + length (takeWhile isalpha (drop (Suc i) cid))"
      by simp
    with True d show ?thesis
      by (subst scan_letters.simps) simp
  next
    case False
    show ?thesis
    proof (cases "i < length cid")
      case True
      with False have na: "\<not> isalpha (cid ! i)" by simp
      from True have d: "drop i cid = cid ! i # drop (Suc i) cid"
        by (simp add: Cons_nth_drop_Suc)
      from False na d show ?thesis
        by (subst scan_letters.simps) simp
    next
      case False
      with 1(2) show ?thesis
        by (subst scan_letters.simps) simp
    qed
  qed
qed

lemma scan_digits_all:
  "i \<le> length cid \<Longrightarrow>
   scan_digits cid i n = (if list_all isdigit (drop i cid) then Some (n + (length cid - i)) else None)"
proof (induction cid i n rule: scan_digits.induct)
  case (1 cid i n)
  show ?case
  proof (cases "i < length cid")
    case True
    then have d: "drop i cid = cid ! i # drop (Suc i) cid"
      by (simp add: Cons_nth_drop_Suc)
    show ?thesis
    proof (cases "isdigit (cid ! i)")
      case dg: True
      from True dg 1 have "scan_digits cid (Suc i) (Suc n) =
          (if list_all isdigit (drop (Suc i) cid) then Some (Suc n + (length cid - Suc i)) else None)"
        by simp
      with True dg d show ?thesis
        by (subst scan_digits.simps) auto
    next
      case False
      with True d show ?thesis
        by (subst scan_digits.simps) simp
    qed
  next
    case False
    with 1(2) show ?thesis
      by (subst scan_digits.simps) simp
  qed
qed

lemma isdigit_not_isalpha: "isdigit c \<Longrightarrow> \<not> isalpha c"
  by (auto simp: isdigit_def isalpha_def Let_def)

lemma isValidCourseId_takeWhile:
  "isValidCourseId cid \<longleftrightarrow>
     (let i = length (takeWhile isalpha cid) in
        length cid \<le> 20 \<and> 2 \<le> i \<and> i \<le> 4 \<and> list_all isdigit (drop i cid) \<and> 3 \<le> length cid - i)"
  by (auto simp: isValidCourseId_def scan_letters_takeWhile scan_digits_all Let_def
        length_takeWhile_le)

lemma takeWhile_letters_digits:
  assumes "list_all isalpha ls" "list_all isdigit ds"
  shows "takeWhile isalpha (ls @ ds) = ls"
proof -
  have "takeWhile isalpha ds = []"
    using assms(2) by (cases ds) (auto dest: isdigit_not_isalpha)
  with assms(1) show ?thesis
    by (simp add: takeWhile_append list_all_iff)
qed


section \<open>Cycle detection is correct\<close>

lemma map_ok_key:
  "map_ok h t \<Longrightarrow> FindCourse t k = Some c \<Longrightarrow> courseId (h c) = k"
  by (auto simp: map_ok_def FindCourse_def list_all_iff dest!: map_of_SomeD)

lemma catalog_ok_map_ok: "catalog_ok h t \<Longrightarrow> map_ok h t"
  by (simp add: catalog_ok_def)

lemma hasCycle_structure:
  "map_ok h t \<Longrightarrow> hasCycle n h t co vs = Some (r, vis', stk') \<Longrightarrow>
           fst vs \<subseteq> vis' \<and> (\<forall>c. co = Some c \<longrightarrow> courseId (h c) \<in> vis')
           \<and> (\<not> r \<longrightarrow> stk' = (case co of None \<Rightarrow> snd vs | Some c \<Rightarrow> snd vs - {courseId (h c)}))"
  "map_ok h t \<Longrightarrow> hasCycle_loop n h t c ps vs = Some (r, vis', stk') \<Longrightarrow>
           fst vs \<subseteq> vis' \<and> (\<not> r \<longrightarrow> stk' = snd vs - {courseId (h c)})"
proof (induction n h t co vs and n h t c ps vs arbitrary: r vis' stk' and r vis' stk'
       rule: hasCycle_hasCycle_loop.induct)
  case (2 h t course visited recursionStack)
  then show ?case by simp
next
  case (1 n h t visited recursionStack)
  then show ?case by auto
next
  case (3 n h t course visited recursionStack)
  from "3.IH"[OF "3.prems"(1) "3.prems"(2)[unfolded hasCycle.simps]] show ?case by auto
next
  case (4 n h t course visited recursionStack)
  then show ?case by auto
next
  case (5 n h t course prereqId rest visited recursionStack)
  note ok = "5.prems"(1) and eq = "5.prems"(2)
  show ?case
  proof (cases "FindCourse t prereqId")
    case None
    with "5.IH"(1)[OF None ok] eq show ?thesis by simp
  next
    case (Some prereq)
    note key = map_ok_key[OF ok Some]
    show ?thesis
    proof (cases "prereqId \<in> recursionStack")
      case True
      with eq Some show ?thesis by auto
    next
      case ns: False
      show ?thesis
      proof (cases "prereqId \<in> visited")
        case True
        with "5.IH"(4)[OF Some ns _ ok] eq Some ns show ?thesis by simp
      next
        case nv: False
        from eq Some ns nv obtain f v1 s1 where
          rec: "hasCycle n h t (Some prereq) (visited, recursionStack) = Some (f, v1, s1)"
          by (auto split: option.splits)
        from "5.IH"(2)[OF Some ns nv ok rec] key have
          r1: "visited \<subseteq> v1" "\<not> f \<longrightarrow> s1 = recursionStack - {prereqId}"
          by auto
        show ?thesis
        proof (cases f)
          case True
          with eq Some ns nv rec r1 show ?thesis by auto
        next
          case False
          with r1 ns have s1: "s1 = recursionStack" by auto
          from eq Some ns nv rec False
          have "hasCycle_loop n h t course rest (v1, s1) = Some (r, vis', stk')" by simp
          from "5.IH"(3)[OF Some ns nv rec refl refl False ok this] r1 s1
          show ?thesis by auto
        qed
      qed
    qed
  qed
qed

lemma finite_keys: "finite (fst ` set (courseMap t))"
  by simp

lemma FindCourse_in_keys: "FindCourse t k = Some c \<Longrightarrow> k \<in> fst ` set (courseMap t)"
  by (auto simp: FindCourse_def dest!: map_of_SomeD intro: rev_image_eqI)

lemma hasCycle_total:
  "map_ok h t \<Longrightarrow> co = Some c \<Longrightarrow> FindCourse t (courseId (h c)) = Some c \<Longrightarrow>
     courseId (h c) \<notin> fst vs \<Longrightarrow> card (fst ` set (courseMap t) - fst vs) \<le> n \<Longrightarrow>
     \<exists>res. hasCycle n h t co vs = Some res"
  "map_ok h t \<Longrightarrow> card (fst ` set (courseMap t) - fst vs) \<le> n \<Longrightarrow>
     \<exists>res. hasCycle_loop n h t c' ps vs = Some res"
proof (induction n h t co vs and n h t c' ps vs arbitrary: c
       rule: hasCycle_hasCycle_loop.induct)
  case (2 h t course visited recursionStack)
  from "2.prems" have "courseId (h c) \<in> fst ` set (courseMap t) - visited"
    by (auto dest: FindCourse_in_keys)
  then have "0 < card (fst ` set (courseMap t) - visited)"
    by (metis card_gt_0_iff empty_iff finite_Diff finite_keys)
  with "2.prems"(5)[unfolded fst_conv] have False by linarith
  then show ?case ..
next
  case (1 n h t visited recursionStack)
  show ?case by auto
next
  case (3 n h t course visited recursionStack)
  from "3.prems" have c: "course = c" by simp
  from "3.prems" have mem: "courseId (h c) \<in> fst ` set (courseMap t) - visited"
    by (auto dest: FindCourse_in_keys)
  have "fst ` set (courseMap t) - insert (courseId (h c)) visited
        = (fst ` set (courseMap t) - visited) - {courseId (h c)}" by auto
  with mem have "card (fst ` set (courseMap t) - insert (courseId (h c)) visited)
        = card (fst ` set (courseMap t) - visited) - 1"
    by (simp add: card_Diff_singleton)
  with "3.prems" have "card (fst ` set (courseMap t) - insert (courseId (h c)) visited) \<le> n"
    by simp
  with "3.IH"[OF "3.prems"(1)] c show ?case by simp
next
  case (4 n h t course visited recursionStack)
  show ?case by auto
next
  case (5 n h t course prereqId rest visited recursionStack)
  note ok = "5.prems"(1) and cd = "5.prems"(2)
  show ?case
  proof (cases "FindCourse t prereqId")
    case None
    with "5.IH"(1)[OF None ok cd] show ?thesis by simp
  next
    case (Some prereq)
    note key = map_ok_key[OF ok Some]
    show ?thesis
    proof (cases "prereqId \<in> recursionStack")
      case True
      with Some show ?thesis by auto
    next
      case ns: False
      show ?thesis
      proof (cases "prereqId \<in> visited")
        case True
        with "5.IH"(4)[OF Some ns _ ok cd] Some ns show ?thesis by simp
      next
        case nv: False
        from "5.IH"(2)[OF Some ns nv ok refl] Some key nv cd
        obtain f v1 s1 where
          rec: "hasCycle n h t (Some prereq) (visited, recursionStack) = Some (f, v1, s1)"
          by fastforce
        show ?thesis
        proof (cases f)
          case True
          with Some ns nv rec show ?thesis by auto
        next
          case False
          from hasCycle_structure(1)[OF ok rec] have "visited \<subseteq> v1" by simp
          then have "card (fst ` set (courseMap t) - v1) \<le> card (fst ` set (courseMap t) - visited)"
            by (intro card_mono) auto
          with cd have "card (fst ` set (courseMap t) - fst (v1, s1)) \<le> n" by simp
          from "5.IH"(3)[OF Some ns nv rec refl refl False ok this] Some ns nv rec False
          show ?thesis by simp
        qed
      qed
    qed
  qed
qed

lemma prereq_edgesI:
  "FindCourse t a = Some c \<Longrightarrow> b \<in> set (prereqs (h c)) \<Longrightarrow> FindCourse t b = Some p \<Longrightarrow>
     (a, b) \<in> prereq_edges h t"
  by (auto simp: prereq_edges_def)

lemma cycle_reachable_step:
  "(a, b) \<in> prereq_edges h t \<Longrightarrow> cycle_reachable h t b \<Longrightarrow> cycle_reachable h t a"
  unfolding cycle_reachable_def by (meson converse_rtrancl_into_rtrancl)

lemma cycle_reachable_back_edge:
  assumes "(a, q) \<in> prereq_edges h t" "(q, a) \<in> (prereq_edges h t)\<^sup>*"
  shows "cycle_reachable h t a"
proof -
  from assms have "(a, a) \<in> (prereq_edges h t)\<^sup>+"
    by (meson rtrancl_into_trancl2)
  then show ?thesis unfolding cycle_reachable_def by blast
qed

lemma not_cycle_reachable_succs:
  assumes "\<And>b. (a, b) \<in> prereq_edges h t \<Longrightarrow> \<not> cycle_reachable h t b"
  shows "\<not> cycle_reachable h t a"
proof
  assume "cycle_reachable h t a"
  then obtain x where ax: "(a, x) \<in> (prereq_edges h t)\<^sup>*" and xx: "(x, x) \<in> (prereq_edges h t)\<^sup>+"
    unfolding cycle_reachable_def by blast
  show False
  proof (cases "a = x")
    case True
    with xx obtain e where e: "(a, e) \<in> prereq_edges h t" "(e, a) \<in> (prereq_edges h t)\<^sup>*"
      by (meson tranclD)
    with xx True have "cycle_reachable h t e"
      unfolding cycle_reachable_def by blast
    with assms e(1) show False by blast
  next
    case False
    with ax obtain e where e: "(a, e) \<in> prereq_edges h t" "(e, x) \<in> (prereq_edges h t)\<^sup>*"
      by (meson converse_rtranclE)
    with xx have "cycle_reachable h t e"
      unfolding cycle_reachable_def by blast
    with assms e(1) show False by blast
  qed
qed

lemma hasCycle_sound:
  "map_ok h t \<Longrightarrow> hasCycle n h t co vs = Some (True, vis', stk') \<Longrightarrow> co = Some c \<Longrightarrow>
     FindCourse t (courseId (h c)) = Some c \<Longrightarrow>
     \<forall>s\<in>snd vs. (s, courseId (h c)) \<in> (prereq_edges h t)\<^sup>* \<Longrightarrow>
     cycle_reachable h t (courseId (h c))"
  "map_ok h t \<Longrightarrow> hasCycle_loop n h t c' ps vs = Some (True, vis', stk') \<Longrightarrow>
     FindCourse t (courseId (h c')) = Some c' \<Longrightarrow> set ps \<subseteq> set (prereqs (h c')) \<Longrightarrow>
     \<forall>s\<in>snd vs. (s, courseId (h c')) \<in> (prereq_edges h t)\<^sup>* \<Longrightarrow>
     cycle_reachable h t (courseId (h c'))"
proof (induction n h t co vs and n h t c' ps vs arbitrary: vis' stk' c and vis' stk'
       rule: hasCycle_hasCycle_loop.induct)
  case (2 h t course visited recursionStack)
  then show ?case by simp
next
  case (1 n h t visited recursionStack)
  then show ?case by simp
next
  case (3 n h t course visited recursionStack)
  from "3.prems" have c: "course = c" by simp
  from "3.prems"(2) c have
    "hasCycle_loop n h t c (prereqs (h c))
       (insert (courseId (h c)) visited, insert (courseId (h c)) recursionStack) = Some (True, vis', stk')"
    by simp
  from "3.IH"[OF "3.prems"(1) this[folded c]] "3.prems"(4,5) c show ?case by auto
next
  case (4 n h t course visited recursionStack)
  then show ?case by simp
next
  case (5 n h t course prereqId rest visited recursionStack)
  note ok = "5.prems"(1) and eq = "5.prems"(2) and fc = "5.prems"(3) and sub = "5.prems"(4)
    and stk = "5.prems"(5)
  from sub have sub': "set rest \<subseteq> set (prereqs (h course))" and pin: "prereqId \<in> set (prereqs (h course))"
    by auto
  show ?case
  proof (cases "FindCourse t prereqId")
    case None
    with "5.IH"(1)[OF None ok _ fc sub' stk] eq show ?thesis by simp
  next
    case (Some prereq)
    note key = map_ok_key[OF ok Some]
    have edge: "(courseId (h course), prereqId) \<in> prereq_edges h t"
      using fc pin Some by (rule prereq_edgesI)
    show ?thesis
    proof (cases "prereqId \<in> recursionStack")
      case True
      with stk have "(prereqId, courseId (h course)) \<in> (prereq_edges h t)\<^sup>*" by simp
      with edge show ?thesis by (rule cycle_reachable_back_edge)
    next
      case ns: False
      show ?thesis
      proof (cases "prereqId \<in> visited")
        case True
        with "5.IH"(4)[OF Some ns _ ok _ fc sub' stk] eq Some ns show ?thesis by simp
      next
        case nv: False
        from eq Some ns nv obtain f v1 s1 where
          rec: "hasCycle n h t (Some prereq) (visited, recursionStack) = Some (f, v1, s1)"
          by (auto split: option.splits)
        show ?thesis
        proof (cases f)
          case True
          have pre: "\<forall>s\<in>snd (visited, recursionStack). (s, courseId (h prereq)) \<in> (prereq_edges h t)\<^sup>*"
            using stk edge key by (auto intro: rtrancl_into_rtrancl)
          from rec True
          have rec': "hasCycle n h t (Some prereq) (visited, recursionStack) = Some (True, v1, s1)"
            by simp
          from "5.IH"(2)[OF Some ns nv ok rec' refl _ pre] Some key
          have "cycle_reachable h t prereqId" by simp
          with edge show ?thesis by (rule cycle_reachable_step)
        next
          case False
          from hasCycle_structure(1)[OF ok rec] False key ns have s1: "s1 = recursionStack"
            by auto
          from eq Some ns nv rec False
          have l: "hasCycle_loop n h t course rest (v1, s1) = Some (True, vis', stk')" by simp
          from stk s1 have "\<forall>s\<in>snd (v1, s1). (s, courseId (h course)) \<in> (prereq_edges h t)\<^sup>*"
            by simp
          from "5.IH"(3)[OF Some ns nv rec refl refl False ok l fc sub' this]
          show ?thesis .
        qed
      qed
    qed
  qed
qed

lemma hasCycle_complete:
  "map_ok h t \<Longrightarrow> hasCycle n h t co vs = Some (False, vis', stk') \<Longrightarrow> co = Some c \<Longrightarrow>
     FindCourse t (courseId (h c)) = Some c \<Longrightarrow>
     \<forall>d\<in>fst vs - snd vs. \<not> cycle_reachable h t d \<Longrightarrow>
     (\<forall>d\<in>vis' - stk'. \<not> cycle_reachable h t d) \<and> courseId (h c) \<in> vis' - stk'"
  "map_ok h t \<Longrightarrow> hasCycle_loop n h t c' ps vs = Some (False, vis', stk') \<Longrightarrow>
     FindCourse t (courseId (h c')) = Some c' \<Longrightarrow> courseId (h c') \<in> snd vs \<Longrightarrow>
     \<forall>d\<in>fst vs - snd vs. \<not> cycle_reachable h t d \<Longrightarrow>
     (\<forall>d\<in>vis' - snd vs. \<not> cycle_reachable h t d)
     \<and> (\<forall>q\<in>set ps. FindCourse t q \<noteq> None \<longrightarrow> q \<in> vis' - snd vs)"
proof (induction n h t co vs and n h t c' ps vs arbitrary: vis' stk' c and vis' stk'
       rule: hasCycle_hasCycle_loop.induct)
  case (2 h t course visited recursionStack)
  then show ?case by simp
next
  case (1 n h t visited recursionStack)
  then show ?case by simp
next
  case (3 n h t course visited recursionStack)
  from "3.prems" have c: "course = c" by simp
  let ?a = "courseId (h c)"
  from "3.prems"(2) c have l:
    "hasCycle_loop n h t c (prereqs (h c)) (insert ?a visited, insert ?a recursionStack)
       = Some (False, vis', stk')"
    by simp
  have pre: "\<forall>d\<in>fst (insert ?a visited, insert ?a recursionStack)
                 - snd (insert ?a visited, insert ?a recursionStack). \<not> cycle_reachable h t d"
    using "3.prems"(5) by auto
  from "3.IH"[OF "3.prems"(1) l[folded c] _ _ pre[folded c]] "3.prems"(4) c
  have post: "\<forall>d\<in>vis' - insert ?a recursionStack. \<not> cycle_reachable h t d"
       "\<forall>q\<in>set (prereqs (h c)). FindCourse t q \<noteq> None \<longrightarrow> q \<in> vis' - insert ?a recursionStack"
    by auto
  from hasCycle_structure(2)[OF "3.prems"(1) l]
  have st: "insert ?a visited \<subseteq> vis'" "stk' = insert ?a recursionStack - {?a}" by auto
  have "\<not> cycle_reachable h t ?a"
  proof (rule not_cycle_reachable_succs)
    fix b assume "(?a, b) \<in> prereq_edges h t"
    with "3.prems"(4) have "b \<in> set (prereqs (h c))" "FindCourse t b \<noteq> None"
      by (auto simp: prereq_edges_def)
    with post show "\<not> cycle_reachable h t b" by blast
  qed
  with post(1) st show ?case by auto
next
  case (4 n h t course visited recursionStack)
  then show ?case by auto
next
  case (5 n h t course prereqId rest visited recursionStack)
  note ok = "5.prems"(1) and eq = "5.prems"(2) and fc = "5.prems"(3) and ins = "5.prems"(4)
    and good = "5.prems"(5)
  show ?case
  proof (cases "FindCourse t prereqId")
    case None
    with "5.IH"(1)[OF None ok _ fc ins good] eq show ?thesis by simp
  next
    case (Some prereq)
    note key = map_ok_key[OF ok Some]
    show ?thesis
    proof (cases "prereqId \<in> recursionStack")
      case True
      with eq Some show ?thesis by simp
    next
      case ns: False
      show ?thesis
      proof (cases "prereqId \<in> visited")
        case True
        from eq Some ns True have l: "hasCycle_loop n h t course rest (visited, recursionStack) = Some (False, vis', stk')"
          by simp
        from hasCycle_structure(2)[OF ok l] have "visited \<subseteq> vis'" by simp
        with "5.IH"(4)[OF Some ns _ ok l fc ins good] True ns show ?thesis by auto
      next
        case nv: False
        from eq Some ns nv obtain f v1 s1 where
          rec: "hasCycle n h t (Some prereq) (visited, recursionStack) = Some (f, v1, s1)"
          by (auto split: option.splits)
        from eq Some ns nv rec have nf: "\<not> f" by (auto split: if_splits)
        from eq Some ns nv rec nf
        have l: "hasCycle_loop n h t course rest (v1, s1) = Some (False, vis', stk')" by simp
        from hasCycle_structure(1)[OF ok rec] nf key ns have s1: "s1 = recursionStack"
          by auto
        from rec nf
        have rec': "hasCycle n h t (Some prereq) (visited, recursionStack) = Some (False, v1, s1)"
          by simp
        from "5.IH"(2)[OF Some ns nv ok rec' refl _ good] Some key
        have g1: "\<forall>d\<in>v1 - s1. \<not> cycle_reachable h t d" "prereqId \<in> v1 - s1"
          by auto
        from hasCycle_structure(2)[OF ok l] have mono: "v1 \<subseteq> vis'" by simp
        from ins s1 have ins1: "courseId (h course) \<in> snd (v1, s1)" by simp
        from g1(1) have good1: "\<forall>d\<in>fst (v1, s1) - snd (v1, s1). \<not> cycle_reachable h t d" by simp
        from "5.IH"(3)[OF Some ns nv rec refl refl nf ok l fc ins1 good1] g1(2) mono s1
        show ?thesis by auto
      qed
    qed
  qed
qed

lemma HasPrerequisiteCycle_char:
  assumes ok: "map_ok h t"
  shows "HasPrerequisiteCycle h t k =
           (case FindCourse t k of
              None \<Rightarrow> Some (Inl (NotFound k))
            | Some c \<Rightarrow> Some (Inr (cycle_reachable h t k)))"
proof (cases "FindCourse t k")
  case None
  then show ?thesis by (simp add: HasPrerequisiteCycle_def)
next
  case (Some c)
  note key = map_ok_key[OF ok Some]
  have "card (fst ` set (courseMap t)) \<le> length (courseMap t)"
    by (metis card_image_le card_length le_trans List.finite_set)
  then have cd: "card (fst ` set (courseMap t) - fst ({}::string set, {}::string set)) \<le> length (courseMap t)"
    by simp
  from hasCycle_total(1)[OF ok refl _ _ cd, of c] Some key
  obtain r v s where res: "hasCycle (length (courseMap t)) h t (Some c) ({}, {}) = Some (r, v, s)"
    by (metis empty_iff fst_conv prod_cases3)
  have "r = cycle_reachable h t k"
  proof (cases r)
    case True
    with hasCycle_sound(1)[OF ok _ refl, of _ c "({}, {})" v s] res Some key show ?thesis by simp
  next
    case False
    with hasCycle_complete(1)[OF ok _ refl, of _ c "({}, {})" v s] res Some key show ?thesis by simp
  qed
  with res Some show ?thesis by (simp add: HasPrerequisiteCycle_def)
qed

text \<open>
  Claim C1. For a key of the catalog, \<^verbatim>\<open>HasPrerequisiteCycle\<close> returns true exactly when
  a directed cycle of prerequisite edges, each resolving to a record of the catalog, can
  be reached from that key; for a key that is not in the catalog it throws
  "Course not found". The call always returns: the depth bound is never reached.
\<close>

theorem HasPrerequisiteCycle_correct:
  assumes "map_ok h t"
  shows "HasPrerequisiteCycle h t k =
           (case FindCourse t k of
              None \<Rightarrow> Some (Inl (NotFound k))
            | Some c \<Rightarrow> Some (Inr (cycle_reachable h t k)))"
  using assms by (rule HasPrerequisiteCycle_char)

theorem HasPrerequisiteCycle_correct_witness:
  "map_ok cycle_store cycle_tree
   \<and> HasPrerequisiteCycle cycle_store cycle_tree ''CS100'' = Some (Inr True)
   \<and> cycle_reachable cycle_store cycle_tree ''CS100''
   \<and> HasPrerequisiteCycle chain_store chain_tree ''CS300'' = Some (Inr False)
   \<and> \<not> cycle_reachable chain_store chain_tree ''CS300''
   \<and> HasPrerequisiteCycle cycle_store cycle_tree ''CS999'' = Some (Inl (NotFound ''CS999''))"
proof -
  have ok: "map_ok cycle_store cycle_tree" by code_simp
  have ok': "map_ok chain_store chain_tree" by code_simp
  have f: "FindCourse cycle_tree ''CS100'' = Some 0" by code_simp
  have f': "FindCourse chain_tree ''CS300'' = Some 2" by code_simp
  have r: "HasPrerequisiteCycle cycle_store cycle_tree ''CS100'' = Some (Inr True)" by code_simp
  have r': "HasPrerequisiteCycle chain_store chain_tree ''CS300'' = Some (Inr False)" by code_simp
  have n: "HasPrerequisiteCycle cycle_store cycle_tree ''CS999'' = Some (Inl (NotFound ''CS999''))"
    by code_simp
  from HasPrerequisiteCycle_correct[OF ok, of "''CS100''"] r f
  have c: "cycle_reachable cycle_store cycle_tree ''CS100''" by simp
  from HasPrerequisiteCycle_correct[OF ok', of "''CS300''"] r' f'
  have c': "\<not> cycle_reachable chain_store chain_tree ''CS300''" by simp
  from ok r c r' c' n show ?thesis by blast
qed

section \<open>Topological order\<close>

lemma post_order_closed: "post_order E xs \<Longrightarrow> E `` set xs \<subseteq> set xs"
  by (induction xs) auto

lemma closed_rtrancl: "(a, b) \<in> E\<^sup>* \<Longrightarrow> E `` A \<subseteq> A \<Longrightarrow> a \<in> A \<Longrightarrow> b \<in> A"
  by (induction rule: rtrancl_induct) auto

lemma post_order_distinct: "post_order E xs \<Longrightarrow> distinct xs"
  by (induction xs) auto

lemma post_order_nth:
  "post_order E xs \<Longrightarrow> i < j \<Longrightarrow> j < length xs \<Longrightarrow> (xs ! j, xs ! i) \<notin> E\<^sup>+"
proof (induction xs arbitrary: i j)
  case Nil
  then show ?case by simp
next
  case (Cons x xs)
  show ?case
  proof (cases i)
    case 0
    with Cons.prems obtain j' where j: "j = Suc j'" "j' < length xs"
      by (cases j) auto
    from Cons.prems(1) have cl: "E `` set xs \<subseteq> set xs" and nx: "x \<notin> set xs"
      by (auto dest: post_order_closed)
    have "(xs ! j', x) \<notin> E\<^sup>+"
    proof
      assume "(xs ! j', x) \<in> E\<^sup>+"
      then have "(xs ! j', x) \<in> E\<^sup>*" by simp
      from closed_rtrancl[OF this cl] j(2) nx show False by simp
    qed
    with 0 j show ?thesis by simp
  next
    case (Suc i')
    with Cons.prems obtain j' where j: "j = Suc j'" "i' < j'" "j' < length xs"
      by (cases j) auto
    from Cons.IH[OF _ j(2,3)] Cons.prems(1) Suc j show ?thesis by simp
  qed
qed

lemma topo_structure:
  "topologicalSortUtil n h t c vs = Some (vis', S') \<Longrightarrow> fst vs \<subseteq> vis'"
  "visit_prereqs n h t ps vs = Some (vis', S') \<Longrightarrow> fst vs \<subseteq> vis'"
proof (induction n h t c vs and n h t ps vs arbitrary: vis' S' and vis' S'
       rule: topologicalSortUtil_visit_prereqs.induct)
  case (1 h t course visited Stack)
  then show ?case by simp
next
  case (2 n h t course visited Stack)
  then show ?case by (fastforce split: option.splits)
next
  case (3 n h t visited Stack)
  then show ?case by simp
next
  case (4 n h t prereqId rest visited Stack)
  show ?case
  proof (cases "FindCourse t prereqId")
    case None
    with 4 show ?thesis by simp
  next
    case (Some prereq)
    show ?thesis
    proof (cases "prereqId \<in> visited")
      case True
      with "4.IH"(4)[OF Some] "4.prems" Some show ?thesis by simp
    next
      case False
      with "4.prems" Some obtain v1 S1 where
        rec: "topologicalSortUtil n h t prereq (visited, Stack) = Some (v1, S1)"
        and l: "visit_prereqs n h t rest (v1, S1) = Some (vis', S')"
        by (auto split: option.splits)
      from "4.IH"(2)[OF Some False rec] "4.IH"(3)[OF Some False rec refl l]
      show ?thesis by auto
    qed
  qed
qed

lemma topo_total:
  "map_ok h t \<Longrightarrow> FindCourse t (courseId (h c)) = Some c \<Longrightarrow>
     courseId (h c) \<notin> fst vs \<Longrightarrow> card (fst ` set (courseMap t) - fst vs) \<le> n \<Longrightarrow>
     \<exists>res. topologicalSortUtil n h t c vs = Some res"
  "map_ok h t \<Longrightarrow> card (fst ` set (courseMap t) - fst vs) \<le> n \<Longrightarrow>
     \<exists>res. visit_prereqs n h t ps vs = Some res"
proof (induction n h t c vs and n h t ps vs rule: topologicalSortUtil_visit_prereqs.induct)
  case (1 h t course visited Stack)
  from "1.prems" have "courseId (h course) \<in> fst ` set (courseMap t) - visited"
    by (auto dest: FindCourse_in_keys)
  then have "0 < card (fst ` set (courseMap t) - visited)"
    by (metis card_gt_0_iff empty_iff finite_Diff finite_keys)
  with "1.prems"(4)[unfolded fst_conv] have False by linarith
  then show ?case ..
next
  case (2 n h t course visited Stack)
  let ?a = "courseId (h course)"
  from "2.prems" have mem: "?a \<in> fst ` set (courseMap t) - visited"
    by (auto dest: FindCourse_in_keys)
  have "fst ` set (courseMap t) - insert ?a visited = (fst ` set (courseMap t) - visited) - {?a}"
    by auto
  with mem have "card (fst ` set (courseMap t) - insert ?a visited)
        = card (fst ` set (courseMap t) - visited) - 1"
    by (simp add: card_Diff_singleton)
  with "2.prems" have "card (fst ` set (courseMap t) - fst (insert ?a visited, Stack)) \<le> n"
    by simp
  from "2.IH"[OF "2.prems"(1) this] show ?case by auto
next
  case (3 n h t visited Stack)
  show ?case by simp
next
  case (4 n h t prereqId rest visited Stack)
  note ok = "4.prems"(1) and cd = "4.prems"(2)
  show ?case
  proof (cases "FindCourse t prereqId")
    case None
    with "4.IH"(1)[OF None ok cd] show ?thesis by simp
  next
    case (Some prereq)
    note key = map_ok_key[OF ok Some]
    show ?thesis
    proof (cases "prereqId \<in> visited")
      case True
      with "4.IH"(4)[OF Some _ ok cd] Some show ?thesis by simp
    next
      case nv: False
      from "4.IH"(2)[OF Some nv ok] Some key nv cd
      obtain v1 S1 where
        rec: "topologicalSortUtil n h t prereq (visited, Stack) = Some (v1, S1)"
        by fastforce
      from topo_structure(1)[OF rec] have "visited \<subseteq> v1" by simp
      then have "card (fst ` set (courseMap t) - v1) \<le> card (fst ` set (courseMap t) - visited)"
        by (intro card_mono) auto
      with cd have "card (fst ` set (courseMap t) - fst (v1, S1)) \<le> n" by simp
      from "4.IH"(3)[OF Some nv rec refl ok this] Some nv rec
      show ?thesis by simp
    qed
  qed
qed

lemma course_ids_simps [simp]: "course_ids h [] = []" "course_ids h (c # cs) = courseId (h c) # course_ids h cs"
  by (simp_all add: course_ids_def)

lemma rtrancl_Image_unfold: "E\<^sup>* `` {a} = insert a (E\<^sup>* `` (E `` {a}))"
proof
  show "E\<^sup>* `` {a} \<subseteq> insert a (E\<^sup>* `` (E `` {a}))"
  proof
    fix x assume "x \<in> E\<^sup>* `` {a}"
    then have "(a, x) \<in> E\<^sup>*" by simp
    then show "x \<in> insert a (E\<^sup>* `` (E `` {a}))"
      by (cases rule: converse_rtranclE) auto
  qed
  show "insert a (E\<^sup>* `` (E `` {a})) \<subseteq> E\<^sup>* `` {a}"
    by (auto intro: converse_rtrancl_into_rtrancl)
qed

lemma prereq_edges_Image:
  "FindCourse t a = Some c \<Longrightarrow>
     prereq_edges h t `` {a} = {q \<in> set (prereqs (h c)). FindCourse t q \<noteq> None}"
  by (auto simp: prereq_edges_def)

lemma topo_correct:
  "map_ok h t \<Longrightarrow> topologicalSortUtil n h t c vs = Some (vis', S') \<Longrightarrow>
     FindCourse t (courseId (h c)) = Some c \<Longrightarrow> courseId (h c) \<notin> fst vs \<Longrightarrow>
     topo_inv h t (fst vs) (snd vs) \<Longrightarrow>
     \<forall>s\<in>fst vs - set (course_ids h (snd vs)). (s, courseId (h c)) \<in> (prereq_edges h t)\<^sup>* \<Longrightarrow>
     \<not> cycle_reachable h t (courseId (h c)) \<Longrightarrow>
     topo_inv h t vis' S'
     \<and> set (course_ids h S') = set (course_ids h (snd vs)) \<union> (prereq_edges h t)\<^sup>* `` {courseId (h c)}
     \<and> vis' - set (course_ids h S') = fst vs - set (course_ids h (snd vs))"
  "map_ok h t \<Longrightarrow> visit_prereqs n h t ps vs = Some (vis', S') \<Longrightarrow>
     \<forall>q\<in>set ps. FindCourse t q \<noteq> None \<longrightarrow> (a, q) \<in> prereq_edges h t \<Longrightarrow>
     topo_inv h t (fst vs) (snd vs) \<Longrightarrow>
     \<forall>s\<in>fst vs - set (course_ids h (snd vs)). (s, a) \<in> (prereq_edges h t)\<^sup>* \<Longrightarrow>
     \<not> cycle_reachable h t a \<Longrightarrow>
     topo_inv h t vis' S'
     \<and> set (course_ids h S') = set (course_ids h (snd vs))
           \<union> (prereq_edges h t)\<^sup>* `` {q \<in> set ps. FindCourse t q \<noteq> None}
     \<and> vis' - set (course_ids h S') = fst vs - set (course_ids h (snd vs))"
proof (induction n h t c vs and n h t ps vs arbitrary: vis' S' and vis' S' a
       rule: topologicalSortUtil_visit_prereqs.induct)
  case (1 h t course visited Stack)
  then show ?case by simp
next
  case (2 n h t course visited Stack)
  let ?E = "prereq_edges h t"
  let ?a = "courseId (h course)"
  let ?Q = "{q \<in> set (prereqs (h course)). FindCourse t q \<noteq> None}"
  note ok = "2.prems"(1) and fc = "2.prems"(3) and acyc = "2.prems"(7)
  from "2.prems"(4) have nv: "?a \<notin> visited" by simp
  from "2.prems"(5) have inv: "topo_inv h t visited Stack" by simp
  from "2.prems"(6) have path: "\<forall>s\<in>visited - set (course_ids h Stack). (s, ?a) \<in> ?E\<^sup>*" by simp
  from "2.prems"(2) obtain S1 where
    l: "visit_prereqs n h t (prereqs (h course)) (insert ?a visited, Stack) = Some (vis', S1)"
    and S': "S' = course # S1"
    by (auto split: option.splits)
  have edges: "\<forall>q\<in>set (prereqs (h course)). FindCourse t q \<noteq> None \<longrightarrow> (?a, q) \<in> ?E"
    using fc by (auto intro: prereq_edgesI)
  have inv1: "topo_inv h t (fst (insert ?a visited, Stack)) (snd (insert ?a visited, Stack))"
    using inv by (auto simp: topo_inv_def)
  have path1: "\<forall>s\<in>fst (insert ?a visited, Stack) - set (course_ids h (snd (insert ?a visited, Stack))).
                 (s, ?a) \<in> ?E\<^sup>*"
    using path by auto
  from "2.IH"[OF ok l edges inv1 path1 acyc, unfolded fst_conv snd_conv]
  have post: "topo_inv h t vis' S1" "set (course_ids h S1) = set (course_ids h Stack) \<union> ?E\<^sup>* `` ?Q"
       "vis' - set (course_ids h S1) = insert ?a visited - set (course_ids h Stack)"
    by blast+
  have aS: "?a \<notin> set (course_ids h Stack)"
    using inv nv by (auto simp: topo_inv_def)
  have aQ: "?a \<notin> ?E\<^sup>* `` ?Q"
  proof
    assume "?a \<in> ?E\<^sup>* `` ?Q"
    then obtain q where q: "q \<in> ?Q" "(q, ?a) \<in> ?E\<^sup>*" by auto
    with edges have "(?a, q) \<in> ?E" by simp
    from cycle_reachable_back_edge[OF this q(2)] acyc show False by simp
  qed
  from aS aQ post(2) have a1: "?a \<notin> set (course_ids h S1)" by simp
  have img: "?E `` {?a} = ?Q" using fc by (rule prereq_edges_Image)
  have "?Q \<subseteq> ?E\<^sup>* `` ?Q" by auto
  with img post(2) have succ: "?E `` {?a} \<subseteq> set (course_ids h S1)" by auto
  from topo_structure(2)[OF l] have ain: "?a \<in> vis'" by auto
  have inv': "topo_inv h t vis' S'"
    using post(1) a1 succ ain fc S' by (auto simp: topo_inv_def)
  have "?E\<^sup>* `` {?a} = insert ?a (?E\<^sup>* `` ?Q)"
    using rtrancl_Image_unfold[of ?E ?a] img by simp
  with post(2) S' have set': "set (course_ids h S') = set (course_ids h Stack) \<union> ?E\<^sup>* `` {?a}"
    by auto
  have "vis' - set (course_ids h S') = (vis' - set (course_ids h S1)) - {?a}" using S' by auto
  with post(3) nv have diff': "vis' - set (course_ids h S') = visited - set (course_ids h Stack)" by auto
  from inv' set' diff' show ?case unfolding fst_conv snd_conv by blast
next
  case (3 n h t visited Stack)
  then show ?case by simp
next
  case (4 n h t prereqId rest visited Stack)
  let ?E = "prereq_edges h t"
  note ok = "4.prems"(1) and eq = "4.prems"(2) and edges = "4.prems"(3) and inv = "4.prems"(4)
    and path = "4.prems"(5) and acyc = "4.prems"(6)
  from edges have edges': "\<forall>q\<in>set rest. FindCourse t q \<noteq> None \<longrightarrow> (a, q) \<in> ?E" by simp
  show ?case
  proof (cases "FindCourse t prereqId")
    case None
    with eq have l: "visit_prereqs n h t rest (visited, Stack) = Some (vis', S')" by simp
    have same: "{q \<in> set (prereqId # rest). FindCourse t q \<noteq> None} = {q \<in> set rest. FindCourse t q \<noteq> None}"
      using None by auto
    from "4.IH"(1)[OF None ok l edges' inv path acyc]
    show ?thesis unfolding same .
  next
    case (Some prereq)
    note key = map_ok_key[OF ok Some]
    from edges Some have edge: "(a, prereqId) \<in> ?E" by simp
    have split: "{q \<in> set (prereqId # rest). FindCourse t q \<noteq> None}
                   = insert prereqId {q \<in> set rest. FindCourse t q \<noteq> None}"
      using Some by auto
    show ?thesis
    proof (cases "prereqId \<in> visited")
      case True
      with eq Some have l: "visit_prereqs n h t rest (visited, Stack) = Some (vis', S')" by simp
      have inS: "prereqId \<in> set (course_ids h Stack)"
      proof (rule ccontr)
        assume "prereqId \<notin> set (course_ids h Stack)"
        with True path have "(prereqId, a) \<in> ?E\<^sup>*" by simp
        from cycle_reachable_back_edge[OF edge this] acyc show False by simp
      qed
      from inv have cl: "?E `` set (course_ids h Stack) \<subseteq> set (course_ids h Stack)"
        by (auto simp: topo_inv_def dest: post_order_closed)
      have "?E\<^sup>* `` {prereqId} \<subseteq> set (course_ids h Stack)"
        using closed_rtrancl[OF _ cl inS] by auto
      then have same: "set (course_ids h Stack) \<union> ?E\<^sup>* `` {q \<in> set (prereqId # rest). FindCourse t q \<noteq> None}
                 = set (course_ids h Stack) \<union> ?E\<^sup>* `` {q \<in> set rest. FindCourse t q \<noteq> None}"
        unfolding split by auto
      have nn: "\<not> prereqId \<notin> visited" using True by simp
      from "4.IH"(4)[OF Some nn ok l edges' inv path acyc]
      show ?thesis unfolding fst_conv snd_conv same .
    next
      case nv: False
      with eq Some obtain v1 S1 where
        rec: "topologicalSortUtil n h t prereq (visited, Stack) = Some (v1, S1)"
        and l: "visit_prereqs n h t rest (v1, S1) = Some (vis', S')"
        by (auto split: option.splits)
      have fc: "FindCourse t (courseId (h prereq)) = Some prereq" using Some key by simp
      have nv': "courseId (h prereq) \<notin> fst (visited, Stack)" using nv key by simp
      have path': "\<forall>s\<in>fst (visited, Stack) - set (course_ids h (snd (visited, Stack))).
                     (s, courseId (h prereq)) \<in> ?E\<^sup>*"
        using path edge key by (auto intro: rtrancl_into_rtrancl)
      have acyc': "\<not> cycle_reachable h t (courseId (h prereq))"
        using acyc edge key cycle_reachable_step by blast
      from "4.IH"(2)[OF Some nv ok rec fc nv' inv path' acyc', unfolded fst_conv snd_conv key]
      have post1: "topo_inv h t v1 S1"
           "set (course_ids h S1) = set (course_ids h Stack) \<union> ?E\<^sup>* `` {prereqId}"
           "v1 - set (course_ids h S1) = visited - set (course_ids h Stack)"
        by blast+
      have inv1: "topo_inv h t (fst (v1, S1)) (snd (v1, S1))" using post1(1) by simp
      have path1: "\<forall>s\<in>fst (v1, S1) - set (course_ids h (snd (v1, S1))). (s, a) \<in> ?E\<^sup>*"
        using path post1(3) by simp
      from "4.IH"(3)[OF Some nv rec refl ok l edges' inv1 path1 acyc, unfolded fst_conv snd_conv]
      have post: "topo_inv h t vis' S'"
           "set (course_ids h S') = set (course_ids h S1) \<union> ?E\<^sup>* `` {q \<in> set rest. FindCourse t q \<noteq> None}"
           "vis' - set (course_ids h S') = v1 - set (course_ids h S1)"
        by blast+
      from post(2) post1(2) split
      have "set (course_ids h S') = set (course_ids h Stack)
              \<union> ?E\<^sup>* `` {q \<in> set (prereqId # rest). FindCourse t q \<noteq> None}"
        by auto
      with post(1,3) post1(3) show ?thesis unfolding fst_conv snd_conv by blast
    qed
  qed
qed

lemma card_keys_le: "card (fst ` set (courseMap t) - {}) \<le> length (courseMap t)"
  by (metis Diff_empty card_image_le card_length le_trans List.finite_set)

lemma rtrancl_Image_succs: "E\<^sup>* `` (E `` {k}) = {b. (k, b) \<in> E\<^sup>+}"
proof -
  have "E\<^sup>+ = E O E\<^sup>*" by (rule trancl_unfold_left)
  then have "E\<^sup>+ `` {k} = E\<^sup>* `` (E `` {k})" by (simp add: relcomp_Image)
  then show ?thesis by auto
qed

lemma course_ids_rev: "course_ids h (rev cs) = rev (course_ids h cs)"
  by (simp add: course_ids_def rev_map)

lemma post_order_rev_nth:
  assumes "post_order E xs" "i < j" "j < length xs"
  shows "(rev xs ! i, rev xs ! j) \<notin> E\<^sup>+"
proof -
  from assms have "rev xs ! i = xs ! (length xs - Suc i)" "rev xs ! j = xs ! (length xs - Suc j)"
    by (simp_all add: rev_nth)
  moreover from assms have "length xs - Suc j < length xs - Suc i" "length xs - Suc i < length xs"
    by arith+
  ultimately show ?thesis using post_order_nth[OF assms(1)] by simp
qed

lemma GetPrerequisiteOrder_acyclic:
  assumes ok: "map_ok h t" and found: "FindCourse t k = Some c"
    and acyc: "\<not> cycle_reachable h t k"
  shows "\<exists>vis S. visit_prereqs (length (courseMap t)) h t (prereqs (h c)) ({}, []) = Some (vis, S)
           \<and> GetPrerequisiteOrder h t k = Some (Inr (rev S))
           \<and> post_order (prereq_edges h t) (course_ids h S)
           \<and> (\<forall>p\<in>set S. FindCourse t (courseId (h p)) = Some p)
           \<and> set (course_ids h S) = {b. (k, b) \<in> (prereq_edges h t)\<^sup>+}"
proof -
  let ?E = "prereq_edges h t"
  have cd: "card (fst ` set (courseMap t) - fst ({}::string set, []::addr list)) \<le> length (courseMap t)"
    using card_keys_le[of t] by simp
  from topo_total(2)[OF ok cd] obtain vis S where
    v: "visit_prereqs (length (courseMap t)) h t (prereqs (h c)) ({}, []) = Some (vis, S)"
    by fastforce
  have edges: "\<forall>q\<in>set (prereqs (h c)). FindCourse t q \<noteq> None \<longrightarrow> (k, q) \<in> ?E"
    using found by (auto intro: prereq_edgesI)
  have inv0: "topo_inv h t (fst ({}, [])) (snd ({}, []))" by (simp add: topo_inv_def)
  have path0: "\<forall>s\<in>fst ({}::string set, []::addr list) - set (course_ids h (snd ({}::string set, []::addr list))). (s, k) \<in> ?E\<^sup>*"
    by simp
  from topo_correct(2)[OF ok v edges inv0 path0 acyc]
  have inv: "topo_inv h t vis S"
    and st: "set (course_ids h S) = ?E\<^sup>* `` {q \<in> set (prereqs (h c)). FindCourse t q \<noteq> None}"
    by simp_all
  from st prereq_edges_Image[OF found, of h] have "set (course_ids h S) = ?E\<^sup>* `` (?E `` {k})" by simp
  then have st': "set (course_ids h S) = {b. (k, b) \<in> ?E\<^sup>+}" by (simp add: rtrancl_Image_succs)
  from HasPrerequisiteCycle_char[OF ok, of k] found acyc
  have "HasPrerequisiteCycle h t k = Some (Inr False)" by simp
  with found v have "GetPrerequisiteOrder h t k = Some (Inr (rev S))"
    by (simp add: GetPrerequisiteOrder_def)
  with v inv st' show ?thesis by (auto simp: topo_inv_def)
qed

text \<open>
  Claim C2. For a key of the catalog from which no cycle of prerequisite edges can be
  reached, \<^verbatim>\<open>GetPrerequisiteOrder\<close> returns a list of records of the catalog whose ids
  are pairwise different and are exactly the keys reachable from the start key by one or
  more resolved prerequisite edges; the start key is not among them; no record of the
  list depends, directly or transitively, on a record that stands later in the list; and
  a course without prerequisites gets the empty list.
\<close>

theorem GetPrerequisiteOrder_topological:
  assumes ok: "map_ok h t" and found: "FindCourse t k = Some c"
    and acyc: "\<not> cycle_reachable h t k"
  shows "\<exists>res. GetPrerequisiteOrder h t k = Some (Inr res)
           \<and> (\<forall>p\<in>set res. FindCourse t (courseId (h p)) = Some p)
           \<and> distinct (course_ids h res)
           \<and> set (course_ids h res) = {b. (k, b) \<in> (prereq_edges h t)\<^sup>+}
           \<and> k \<notin> set (course_ids h res)
           \<and> (\<forall>i j. i < j \<and> j < length res \<longrightarrow> (course_ids h res ! i, course_ids h res ! j) \<notin> (prereq_edges h t)\<^sup>+)
           \<and> (prereqs (h c) = [] \<longrightarrow> res = [])"
proof -
  let ?E = "prereq_edges h t"
  from GetPrerequisiteOrder_acyclic[OF assms] obtain vis S where
    v: "visit_prereqs (length (courseMap t)) h t (prereqs (h c)) ({}, []) = Some (vis, S)"
    and g: "GetPrerequisiteOrder h t k = Some (Inr (rev S))"
    and po: "post_order ?E (course_ids h S)"
    and recs: "\<forall>p\<in>set S. FindCourse t (courseId (h p)) = Some p"
    and st: "set (course_ids h S) = {b. (k, b) \<in> ?E\<^sup>+}"
    by blast
  have d: "distinct (course_ids h (rev S))"
    using post_order_distinct[OF po] by (simp add: course_ids_rev)
  have s: "set (course_ids h (rev S)) = {b. (k, b) \<in> ?E\<^sup>+}"
    using st by (simp add: course_ids_rev)
  have nk: "k \<notin> set (course_ids h (rev S))"
  proof
    assume "k \<in> set (course_ids h (rev S))"
    with s have "(k, k) \<in> ?E\<^sup>+" by simp
    then have "cycle_reachable h t k" unfolding cycle_reachable_def by blast
    with acyc show False ..
  qed
  have ord: "\<forall>i j. i < j \<and> j < length (rev S) \<longrightarrow> (course_ids h (rev S) ! i, course_ids h (rev S) ! j) \<notin> ?E\<^sup>+"
  proof (intro allI impI)
    fix i j assume ij: "i < j \<and> j < length (rev S)"
    then have "j < length (course_ids h S)" by (simp add: course_ids_def)
    from post_order_rev_nth[OF po _ this, of i] ij show
      "(course_ids h (rev S) ! i, course_ids h (rev S) ! j) \<notin> ?E\<^sup>+"
      by (simp add: course_ids_rev)
  qed
  have e: "prereqs (h c) = [] \<longrightarrow> rev S = []"
    using v by auto
  from g recs d s nk ord e show ?thesis by (intro exI[of _ "rev S"]) simp
qed

theorem GetPrerequisiteOrder_topological_witness:
  "map_ok chain_store chain_tree
   \<and> FindCourse chain_tree ''CS300'' = Some 2
   \<and> \<not> cycle_reachable chain_store chain_tree ''CS300''
   \<and> GetPrerequisiteOrder chain_store chain_tree ''CS300'' = Some (Inr [0, 1])
   \<and> course_ids chain_store [0, 1] = [''CS100'', ''CS200'']
   \<and> {b. (''CS300'', b) \<in> (prereq_edges chain_store chain_tree)\<^sup>+} = {''CS100'', ''CS200''}
   \<and> GetPrerequisiteOrder chain_store chain_tree ''CS100'' = Some (Inr [])"
proof -
  have ok: "map_ok chain_store chain_tree" by code_simp
  have f: "FindCourse chain_tree ''CS300'' = Some 2" by code_simp
  have r: "HasPrerequisiteCycle chain_store chain_tree ''CS300'' = Some (Inr False)" by code_simp
  from HasPrerequisiteCycle_char[OF ok, of "''CS300''"] r f
  have acyc: "\<not> cycle_reachable chain_store chain_tree ''CS300''" by simp
  have g: "GetPrerequisiteOrder chain_store chain_tree ''CS300'' = Some (Inr [0, 1])" by code_simp
  have i: "course_ids chain_store [0, 1] = [''CS100'', ''CS200'']" by code_simp
  have e: "GetPrerequisiteOrder chain_store chain_tree ''CS100'' = Some (Inr [])" by code_simp
  from GetPrerequisiteOrder_topological[OF ok f acyc] g i
  have "{b. (''CS300'', b) \<in> (prereq_edges chain_store chain_tree)\<^sup>+} = {''CS100'', ''CS200''}"
    by auto
  with ok f acyc g i e show ?thesis by blast
qed

lemma GetPrerequisiteOrder_errors_aux:
  assumes ok: "map_ok h t"
  shows "(FindCourse t k = None \<longrightarrow> GetPrerequisiteOrder h t k = Some (Inl (NotFound k)))
       \<and> (HasPrerequisiteCycle h t k = Some (Inr True)
            \<longrightarrow> GetPrerequisiteOrder h t k = Some (Inl (CycleDetected k)))
       \<and> (FindCourse t k \<noteq> None \<and> cycle_reachable h t k
            \<longrightarrow> GetPrerequisiteOrder h t k = Some (Inl (CycleDetected k)))
       \<and> (\<exists>r. GetPrerequisiteOrder h t k = Some r)"
proof (cases "FindCourse t k")
  case None
  then show ?thesis by (simp add: GetPrerequisiteOrder_def HasPrerequisiteCycle_def)
next
  case (Some c)
  from HasPrerequisiteCycle_char[OF ok, of k] Some
  have hc: "HasPrerequisiteCycle h t k = Some (Inr (cycle_reachable h t k))" by simp
  show ?thesis
  proof (cases "cycle_reachable h t k")
    case True
    with hc Some show ?thesis by (simp add: GetPrerequisiteOrder_def)
  next
    case False
    from GetPrerequisiteOrder_acyclic[OF ok Some False] False hc Some show ?thesis by auto
  qed
qed


section \<open>Insertion and ordered enumeration\<close>

lemma printSampleSchedule_inorder:
  "printSampleSchedule h n = map (\<lambda>c. (courseId (h c), courseTitle (h c))) (inorder n)"
  by (induction n) auto

lemma enumerate_keys_inorder: "enumerate_keys h t = course_ids h (inorder (root t))"
  by (simp add: enumerate_keys_def printSampleSchedule_inorder course_ids_def comp_def)

lemma inorder_addNode:
  "n \<noteq> Null \<Longrightarrow> bst h n \<Longrightarrow>
     inorder (addNode h n c) =
       filter (\<lambda>x. courseId (h x) \<le> courseId (h c)) (inorder n) @ [c]
       @ filter (\<lambda>x. courseId (h c) < courseId (h x)) (inorder n)"
proof (induction h n c rule: addNode.induct)
  case (1 h d l r c)
  let ?k = "courseId (h c)"
  from "1.prems" have bl: "bst h l" and br: "bst h r"
    and ll: "\<forall>x\<in>set (inorder l). courseId (h x) < courseId (h d)"
    and rr: "\<forall>x\<in>set (inorder r). courseId (h d) \<le> courseId (h x)"
    by (auto simp: list_all_iff)
  show ?case
  proof (cases "?k < courseId (h d)")
    case True
    then have r1: "filter (\<lambda>x. courseId (h x) \<le> ?k) (inorder r) = []"
      and r2: "filter (\<lambda>x. ?k < courseId (h x)) (inorder r) = inorder r"
      using rr by (auto simp: filter_empty_conv filter_id_conv)
    show ?thesis
    proof (cases "l = Null")
      case l: True
      with True r1 r2 show ?thesis by auto
    next
      case False
      with "1.IH"(1)[OF True False False bl] True r1 r2 show ?thesis by auto
    qed
  next
    case False
    then have l1: "filter (\<lambda>x. courseId (h x) \<le> ?k) (inorder l) = inorder l"
      and l2: "filter (\<lambda>x. ?k < courseId (h x)) (inorder l) = []"
      using ll by (auto simp: filter_empty_conv filter_id_conv)
    show ?thesis
    proof (cases "r = Null")
      case r: True
      with False l1 l2 show ?thesis by auto
    next
      case nr: False
      with "1.IH"(2)[OF False nr nr br] False l1 l2 show ?thesis by auto
    qed
  qed
next
  case (2 h course)
  then show ?case by simp
qed

lemma set_inorder_addNode:
  "n \<noteq> Null \<Longrightarrow> bst h n \<Longrightarrow> set (inorder (addNode h n c)) = insert c (set (inorder n))"
  by (auto simp: inorder_addNode)

lemma bst_addNode: "n \<noteq> Null \<Longrightarrow> bst h n \<Longrightarrow> bst h (addNode h n c)"
proof (induction h n c rule: addNode.induct)
  case (1 h d l r c)
  from "1.prems" have bl: "bst h l" and br: "bst h r" by auto
  show ?case
  proof (cases "courseId (h c) < courseId (h d)")
    case True
    show ?thesis
    proof (cases "l = Null")
      case l: True
      with True "1.prems" show ?thesis by auto
    next
      case False
      with "1.IH"(1)[OF True False False bl] True "1.prems" set_inorder_addNode[OF False bl, of c]
      show ?thesis by (auto simp: list_all_iff)
    qed
  next
    case False
    show ?thesis
    proof (cases "r = Null")
      case r: True
      with False "1.prems" show ?thesis by auto
    next
      case nr: False
      with "1.IH"(2)[OF False nr nr br] False "1.prems" set_inorder_addNode[OF nr br, of c]
      show ?thesis by (auto simp: list_all_iff)
    qed
  qed
next
  case (2 h course)
  then show ?case by simp
qed

lemma bst_sorted: "bst h n \<Longrightarrow> sorted (course_ids h (inorder n))"
  by (induction n) (fastforce simp: course_ids_def sorted_append list_all_iff)+

lemma Insert_invalid:
  "\<not> isValidCourseId (courseId (h c)) \<Longrightarrow>
     Insert h (Some c) t = (Some (InvalidKey (courseId (h c))), t)"
  by (simp add: Insert_def)

lemma Insert_valid:
  "isValidCourseId (courseId (h c)) \<Longrightarrow>
     Insert h (Some c) t =
       (None, \<lparr>root = (if root t = Null then Node c Null Null else addNode h (root t) c),
               courseMap = AList.update (courseId (h c)) c (courseMap t)\<rparr>)"
  by (simp add: Insert_def Let_def)

lemma catalog_ok_key_valid:
  "catalog_ok h t \<Longrightarrow> FindCourse t k = Some c \<Longrightarrow> isValidCourseId k"
  by (auto simp: catalog_ok_def FindCourse_def list_all_iff dest!: map_of_SomeD)

lemma list_all_update:
  "list_all P al \<Longrightarrow> P (k, v) \<Longrightarrow> list_all P (AList.update k v al)"
  by (induction al) auto

lemma Insert_catalog_ok:
  assumes "catalog_ok h t"
  shows "catalog_ok h (snd (Insert h c t))"
proof (cases c)
  case None
  with assms show ?thesis by (simp add: Insert_def)
next
  case (Some a)
  show ?thesis
  proof (cases "isValidCourseId (courseId (h a))")
    case True
    with assms Some show ?thesis
      by (auto simp: Insert_valid catalog_ok_def map_ok_def distinct_update intro!: list_all_update)
  next
    case False
    with assms Some show ?thesis by (simp add: Insert_invalid)
  qed
qed

lemma Insert_map_ok:
  assumes "map_ok h t"
  shows "map_ok h (snd (Insert h c t))"
proof (cases c)
  case None
  with assms show ?thesis by (simp add: Insert_def)
next
  case (Some a)
  with assms show ?thesis
    by (cases "isValidCourseId (courseId (h a))")
       (auto simp: Insert_valid Insert_invalid map_ok_def distinct_update intro!: list_all_update)
qed

lemma Insert_Test_map_ok:
  assumes "map_ok h t"
  shows "map_ok h (snd (Insert_Test h c t))"
proof (cases c)
  case None
  with assms show ?thesis by (simp add: Insert_Test_def)
next
  case (Some a)
  with assms show ?thesis
    by (cases "isValidCourseId_Test (courseId (h a))")
       (auto simp: Insert_Test_def Let_def map_ok_def distinct_update intro!: list_all_update)
qed

lemma inorder_Insert:
  assumes "bst h (root t)" "isValidCourseId (courseId (h c))"
  shows "inorder (root (snd (Insert h (Some c) t))) =
           filter (\<lambda>x. courseId (h x) \<le> courseId (h c)) (inorder (root t)) @ [c]
           @ filter (\<lambda>x. courseId (h c) < courseId (h x)) (inorder (root t))"
  using assms by (cases "root t = Null") (simp_all add: Insert_valid inorder_addNode)

lemma bst_Insert:
  assumes "bst h (root t)"
  shows "bst h (root (snd (Insert h c t)))"
proof (cases c)
  case None
  with assms show ?thesis by (simp add: Insert_def)
next
  case (Some a)
  with assms show ?thesis
    by (cases "isValidCourseId (courseId (h a))"; cases "root t = Null")
       (simp_all add: Insert_valid Insert_invalid bst_addNode)
qed

lemma set_update_subset: "set (AList.update k v al) \<subseteq> insert (k, v) (set al)"
  by (induction al) auto

lemma tree_ok_Insert:
  assumes "tree_ok h t"
  shows "tree_ok h (snd (Insert h c t))"
proof (cases c)
  case None
  with assms show ?thesis by (simp add: Insert_def)
next
  case (Some a)
  show ?thesis
  proof (cases "isValidCourseId (courseId (h a))")
    case False
    with assms Some show ?thesis by (simp add: Insert_invalid)
  next
    case True
    from assms have b: "bst h (root t)"
      and m: "\<forall>(k, c)\<in>set (courseMap t). c \<in> set (inorder (root t))"
      by (auto simp: tree_ok_def list_all_iff)
    let ?t' = "snd (Insert h (Some a) t)"
    have b': "bst h (root ?t')" using b by (rule bst_Insert)
    have s: "set (inorder (root ?t')) = insert a (set (inorder (root t)))"
      using inorder_Insert[OF b True] by auto
    have cm: "courseMap ?t' = AList.update (courseId (h a)) a (courseMap t)"
      using True by (simp add: Insert_valid)
    have "\<forall>(k, c)\<in>set (courseMap ?t'). c \<in> set (inorder (root ?t'))"
      using m s set_update_subset[of "courseId (h a)" a "courseMap t"] unfolding cm by fastforce
    with b' Some show ?thesis by (simp add: tree_ok_def list_all_iff)
  qed
qed

lemma insert_all_invariants:
  "catalog_ok h t \<Longrightarrow> tree_ok h t \<Longrightarrow>
     catalog_ok h (insert_all h cs t) \<and> tree_ok h (insert_all h cs t)"
  by (induction cs arbitrary: t) (simp_all add: Insert_catalog_ok tree_ok_Insert)

lemma empty_tree_ok: "catalog_ok h empty_tree" "tree_ok h empty_tree"
  by (simp_all add: catalog_ok_def map_ok_def tree_ok_def empty_tree_def)

lemma mset_inorder_Insert:
  assumes "bst h (root t)"
  shows "mset (inorder (root (snd (Insert h (Some c) t)))) =
           mset (inorder (root t)) + (if isValidCourseId (courseId (h c)) then {#c#} else {#})"
proof (cases "isValidCourseId (courseId (h c))")
  case True
  have "mset (filter (\<lambda>x. courseId (h x) \<le> courseId (h c)) (inorder (root t)))
        + mset (filter (\<lambda>x. courseId (h c) < courseId (h x)) (inorder (root t)))
        = mset (inorder (root t))"
    by (induction "inorder (root t)") (auto simp: not_le[symmetric])
  with True inorder_Insert[OF assms True] show ?thesis by (simp add: ac_simps)
next
  case False
  then show ?thesis by (simp add: Insert_invalid)
qed

lemma mset_inorder_insert_all:
  "bst h (root t) \<Longrightarrow>
     mset (inorder (root (insert_all h cs t))) =
       mset (inorder (root t)) + mset (filter (\<lambda>c. isValidCourseId (courseId (h c))) cs)"
proof (induction cs arbitrary: t)
  case Nil
  then show ?case by simp
next
  case (Cons c cs)
  from Cons.IH[OF bst_Insert[OF Cons.prems, of "Some c"]] mset_inorder_Insert[OF Cons.prems, of c]
  show ?case by (simp add: ac_simps)
qed

lemma filter_course_ids:
  "filter P (course_ids h cs) = course_ids h (filter (\<lambda>c. P (courseId (h c))) cs)"
  by (simp add: course_ids_def filter_map comp_def)

lemma insert_all_bst: "bst h (root (insert_all h cs empty_tree))"
  using insert_all_invariants[OF empty_tree_ok, of h cs] by (simp add: tree_ok_def)

text \<open>
  Claim C6, as amended. After any sequence of insertions into the empty catalog the
  in-order enumeration lists exactly the ids of the courses whose insertion succeeded,
  each as often as it was inserted, in ascending order. The order is strictly ascending
  exactly when no id was inserted twice.
\<close>

theorem enumerate_keys_sorted:
  "sorted (enumerate_keys h (insert_all h cs empty_tree))
   \<and> mset (enumerate_keys h (insert_all h cs empty_tree))
       = mset (filter isValidCourseId (course_ids h cs))
   \<and> (sorted_wrt (<) (enumerate_keys h (insert_all h cs empty_tree))
        \<longleftrightarrow> distinct (filter isValidCourseId (course_ids h cs)))"
proof -
  let ?t = "insert_all h cs empty_tree"
  have s: "sorted (enumerate_keys h ?t)"
    using bst_sorted[OF insert_all_bst] by (simp add: enumerate_keys_inorder)
  have "bst h (root empty_tree)" by (simp add: empty_tree_def)
  from mset_inorder_insert_all[OF this, of cs]
  have "mset (inorder (root ?t)) = mset (filter (\<lambda>c. isValidCourseId (courseId (h c))) cs)"
    by (simp add: empty_tree_def)
  then have "mset (map (\<lambda>c. courseId (h c)) (inorder (root ?t)))
             = mset (map (\<lambda>c. courseId (h c)) (filter (\<lambda>c. isValidCourseId (courseId (h c))) cs))"
    by (metis mset_map)
  then have m: "mset (enumerate_keys h ?t) = mset (filter isValidCourseId (course_ids h cs))"
    by (simp only: enumerate_keys_inorder course_ids_def filter_map comp_def)
  from m have "distinct (enumerate_keys h ?t) \<longleftrightarrow> distinct (filter isValidCourseId (course_ids h cs))"
    by (rule mset_eq_imp_distinct_iff)
  with s have "sorted_wrt (<) (enumerate_keys h ?t) \<longleftrightarrow> distinct (filter isValidCourseId (course_ids h cs))"
    by (simp add: strict_sorted_iff)
  with s m show ?thesis by blast
qed

theorem enumerate_keys_sorted_witness:
  "enumerate_keys chain_store (insert_all chain_store [1, 2, 0] empty_tree) = [''CS100'', ''CS200'', ''CS300'']
   \<and> sorted_wrt (<) (enumerate_keys chain_store (insert_all chain_store [1, 2, 0] empty_tree))
   \<and> enumerate_keys dup_store (insert_all dup_store [0, 2, 1] empty_tree) = [''CS050'', ''CS101'', ''CS101'']
   \<and> sorted (enumerate_keys dup_store (insert_all dup_store [0, 2, 1] empty_tree))"
proof -
  have a: "enumerate_keys chain_store (insert_all chain_store [1, 2, 0] empty_tree) = [''CS100'', ''CS200'', ''CS300'']"
    by code_simp
  have b: "enumerate_keys dup_store (insert_all dup_store [0, 2, 1] empty_tree) = [''CS050'', ''CS101'', ''CS101'']"
    by code_simp
  have d: "distinct (filter isValidCourseId (course_ids chain_store [1, 2, 0]))" by code_simp
  from enumerate_keys_sorted[of chain_store "[1, 2, 0]"] d
  have c: "sorted_wrt (<) (enumerate_keys chain_store (insert_all chain_store [1, 2, 0] empty_tree))"
    by blast
  from enumerate_keys_sorted[of dup_store "[0, 2, 1]"]
  have e: "sorted (enumerate_keys dup_store (insert_all dup_store [0, 2, 1] empty_tree))" by blast
  from a b c e show ?thesis by blast
qed

text \<open>
  Claim C6 as stated fails: after inserting two courses with the id CS101 the enumeration
  lists CS101 twice.
\<close>

theorem enumerate_keys_strict_counterexample:
  "\<not> sorted_wrt (<) (enumerate_keys dup_store (insert_all dup_store [0, 1] empty_tree))"
  by code_simp

text \<open>
  Claim C4 as stated fails: inserting a second course with the id CS101 throws nothing,
  changes the catalog and makes the lookup of CS101 return the second course.
\<close>

theorem Insert_duplicate_counterexample:
  "FindCourse (insert_all dup_store [0] empty_tree) ''CS101'' = Some 0
   \<and> courseId (dup_store 1) = ''CS101''
   \<and> fst (Insert dup_store (Some 1) (insert_all dup_store [0] empty_tree)) = None
   \<and> snd (Insert dup_store (Some 1) (insert_all dup_store [0] empty_tree))
        \<noteq> insert_all dup_store [0] empty_tree
   \<and> FindCourse (snd (Insert dup_store (Some 1) (insert_all dup_store [0] empty_tree))) ''CS101'' = Some 1"
  by code_simp

lemma Insert_Test_valid:
  "isValidCourseId_Test (courseId (h c)) \<Longrightarrow>
     Insert_Test h (Some c) t =
       (None, \<lparr>root = (if root t = Null then Node c Null Null else addNode h (root t) c),
               courseMap = AList.update (courseId (h c)) c (courseMap t)\<rparr>)"
  by (simp add: Insert_Test_def Let_def)

text \<open>
  Claim C4, as amended. Inserting a course whose id is already a key of the hash map
  throws nothing: the entry of that key now points to the new course, every other entry
  is as before, and the hash map still has one entry for each key. \<^verbatim>\<open>Insert\<close> writes to
  no course, so the fields of the course inserted first are untouched. \<^verbatim>\<open>Insert\<close> of
  \<^verbatim>\<open>EnhancementTwoTest.cpp\<close> does the same for an id that passes its own check, as every
  key it inserted did.
\<close>

theorem Insert_duplicate_overwrites:
  assumes ok: "catalog_ok h t" and present: "FindCourse t (courseId (h c)) = Some old"
  shows "fst (Insert h (Some c) t) = None
       \<and> FindCourse (snd (Insert h (Some c) t)) (courseId (h c)) = Some c
       \<and> (\<forall>k. k \<noteq> courseId (h c) \<longrightarrow> FindCourse (snd (Insert h (Some c) t)) k = FindCourse t k)
       \<and> map fst (courseMap (snd (Insert h (Some c) t))) = map fst (courseMap t)
       \<and> catalog_ok h (snd (Insert h (Some c) t))
       \<and> (isValidCourseId_Test (courseId (h c)) \<longrightarrow>
             Insert_Test h (Some c) t = Insert h (Some c) t)"
proof -
  from catalog_ok_key_valid[OF ok present] have v: "isValidCourseId (courseId (h c))" .
  from present have "courseId (h c) \<in> set (map fst (courseMap t))"
    using FindCourse_in_keys by fastforce
  then have "map fst (AList.update (courseId (h c)) c (courseMap t)) = map fst (courseMap t)"
    by (simp add: update_keys)
  with v Insert_catalog_ok[OF ok, of "Some c"] show ?thesis
    by (simp add: Insert_valid Insert_Test_valid FindCourse_def update_conv')
qed

theorem Insert_duplicate_overwrites_witness:
  "catalog_ok dup_store (insert_all dup_store [0] empty_tree)
   \<and> FindCourse (insert_all dup_store [0] empty_tree) (courseId (dup_store 1)) = Some 0
   \<and> fst (Insert dup_store (Some 1) (insert_all dup_store [0] empty_tree)) = None
   \<and> FindCourse (snd (Insert dup_store (Some 1) (insert_all dup_store [0] empty_tree)))
        (courseId (dup_store 1)) = Some 1
   \<and> isValidCourseId_Test (courseId (dup_store 1))
   \<and> fst (Insert_Test dup_store (Some 1) (insert_all dup_store [0] empty_tree)) = None"
proof -
  have ok: "catalog_ok dup_store (insert_all dup_store [0] empty_tree)" by code_simp
  have p: "FindCourse (insert_all dup_store [0] empty_tree) (courseId (dup_store 1)) = Some 0"
    by code_simp
  have v: "isValidCourseId_Test (courseId (dup_store 1))" by code_simp
  from Insert_duplicate_overwrites[OF ok p] ok p v show ?thesis by simp
qed

text \<open>
  Claim C10. Inserting a course whose id is already a key of the hash map throws nothing;
  afterwards the lookup of the id returns the new course, and the enumeration is the old
  one with the line of the new course added behind all lines with a smaller or equal id,
  among them the line of the course found under the id before.
\<close>

theorem Insert_duplicate_second_node:
  assumes ok: "catalog_ok h t" and tok: "tree_ok h t"
    and present: "FindCourse t (courseId (h c)) = Some old"
  shows "fst (Insert h (Some c) t) = None
       \<and> FindCourse (snd (Insert h (Some c) t)) (courseId (h c)) = Some c
       \<and> printSampleSchedule h (root (snd (Insert h (Some c) t))) =
           filter (\<lambda>e. fst e \<le> courseId (h c)) (printSampleSchedule h (root t))
           @ [(courseId (h c), courseTitle (h c))]
           @ filter (\<lambda>e. courseId (h c) < fst e) (printSampleSchedule h (root t))
       \<and> (courseId (h c), courseTitle (h old))
            \<in> set (filter (\<lambda>e. fst e \<le> courseId (h c)) (printSampleSchedule h (root t)))"
proof -
  from catalog_ok_key_valid[OF ok present] have v: "isValidCourseId (courseId (h c))" .
  from tok have b: "bst h (root t)" by (simp add: tree_ok_def)
  from present have "(courseId (h c), old) \<in> set (courseMap t)"
    by (auto simp: FindCourse_def dest: map_of_SomeD)
  with tok have oin: "old \<in> set (inorder (root t))"
    by (auto simp: tree_ok_def list_all_iff)
  from map_ok_key[OF catalog_ok_map_ok[OF ok] present] have ko: "courseId (h old) = courseId (h c)" .
  have e: "printSampleSchedule h (root (snd (Insert h (Some c) t))) =
           filter (\<lambda>e. fst e \<le> courseId (h c)) (printSampleSchedule h (root t))
           @ [(courseId (h c), courseTitle (h c))]
           @ filter (\<lambda>e. courseId (h c) < fst e) (printSampleSchedule h (root t))"
    by (simp add: printSampleSchedule_inorder inorder_Insert[OF b v] filter_map comp_def)
  have o: "(courseId (h c), courseTitle (h old))
            \<in> set (filter (\<lambda>e. fst e \<le> courseId (h c)) (printSampleSchedule h (root t)))"
  proof -
    have "(courseId (h old), courseTitle (h old)) \<in> set (printSampleSchedule h (root t))"
      using oin unfolding printSampleSchedule_inorder set_map by (rule imageI)
    with ko show ?thesis by simp
  qed
  from v e o show ?thesis
    by (simp add: Insert_valid FindCourse_def update_conv')
qed

theorem Insert_duplicate_second_node_witness:
  "catalog_ok dup_store (insert_all dup_store [0, 2] empty_tree)
   \<and> tree_ok dup_store (insert_all dup_store [0, 2] empty_tree)
   \<and> FindCourse (insert_all dup_store [0, 2] empty_tree) (courseId (dup_store 1)) = Some 0
   \<and> fst (Insert dup_store (Some 1) (insert_all dup_store [0, 2] empty_tree)) = None
   \<and> FindCourse (snd (Insert dup_store (Some 1) (insert_all dup_store [0, 2] empty_tree))) ''CS101'' = Some 1
   \<and> printSampleSchedule dup_store (root (snd (Insert dup_store (Some 1) (insert_all dup_store [0, 2] empty_tree))))
       = [(''CS050'', ''Orientation''), (''CS101'', ''Introduction''), (''CS101'', ''Introduction, again'')]"
proof -
  have ok: "catalog_ok dup_store (insert_all dup_store [0, 2] empty_tree)" by code_simp
  have tok: "tree_ok dup_store (insert_all dup_store [0, 2] empty_tree)" by code_simp
  have p: "FindCourse (insert_all dup_store [0, 2] empty_tree) (courseId (dup_store 1)) = Some 0"
    by code_simp
  have k: "courseId (dup_store 1) = ''CS101''" by code_simp
  have e: "printSampleSchedule dup_store (root (snd (Insert dup_store (Some 1) (insert_all dup_store [0, 2] empty_tree))))
       = [(''CS050'', ''Orientation''), (''CS101'', ''Introduction''), (''CS101'', ''Introduction, again'')]"
    by code_simp
  from Insert_duplicate_second_node[OF ok tok p] ok tok p k e show ?thesis by simp
qed

section \<open>Rebuilding the dependency graph\<close>

lemma only_dependents_differ_refl: "only_dependents_differ h h"
  by (simp add: only_dependents_differ_def)

lemma only_dependents_differ_trans:
  "only_dependents_differ h h1 \<Longrightarrow> only_dependents_differ h1 h2 \<Longrightarrow> only_dependents_differ h h2"
  unfolding only_dependents_differ_def
proof
  fix p assume a: "\<forall>p. h1 p = (h p)\<lparr>dependentCourses := dependentCourses (h1 p)\<rparr>"
    and b: "\<forall>p. h2 p = (h1 p)\<lparr>dependentCourses := dependentCourses (h2 p)\<rparr>"
  from b have "h2 p = (h1 p)\<lparr>dependentCourses := dependentCourses (h2 p)\<rparr>" ..
  also from a have "h1 p = (h p)\<lparr>dependentCourses := dependentCourses (h1 p)\<rparr>" ..
  finally show "h2 p = (h p)\<lparr>dependentCourses := dependentCourses (h2 p)\<rparr>" by simp
qed

lemma only_dependents_differ_upd:
  "only_dependents_differ h (h(p := (h p)\<lparr>dependentCourses := ds\<rparr>))"
  by (simp add: only_dependents_differ_def)

lemma only_dependents_differ_fields:
  "only_dependents_differ h h' \<Longrightarrow>
     courseId (h' p) = courseId (h p) \<and> courseTitle (h' p) = courseTitle (h p)
     \<and> prereqs (h' p) = prereqs (h p) \<and> isVisited (h' p) = isVisited (h p)
     \<and> isProcessing (h' p) = isProcessing (h p)"
  unfolding only_dependents_differ_def by (metis Course.select_convs(1,2,3,5,6) Course.surjective Course.update_convs(4))

lemma clear_dependents_frame: "only_dependents_differ h (clear_dependents al h)"
proof (induction al arbitrary: h)
  case Nil
  show ?case by (simp add: only_dependents_differ_refl)
next
  case (Cons e al)
  obtain k c where e: "e = (k, c)" by (cases e)
  let ?h1 = "h(c := (h c)\<lparr>dependentCourses := []\<rparr>)"
  have "only_dependents_differ h ?h1" by (rule only_dependents_differ_upd)
  moreover have "only_dependents_differ ?h1 (clear_dependents al ?h1)" by (rule Cons.IH)
  ultimately have "only_dependents_differ h (clear_dependents al ?h1)"
    by (rule only_dependents_differ_trans)
  with e show ?case by simp
qed

lemma clear_dependents_deps:
  "dependentCourses (clear_dependents al h p) =
     (if p \<in> snd ` set al then [] else dependentCourses (h p))"
proof (induction al arbitrary: h)
  case Nil
  show ?case by simp
next
  case (Cons e al)
  obtain k c where e: "e = (k, c)" by (cases e)
  let ?h1 = "h(c := (h c)\<lparr>dependentCourses := []\<rparr>)"
  have d1: "dependentCourses (?h1 p) = (if p = c then [] else dependentCourses (h p))"
    by simp
  have eq: "clear_dependents (e # al) h = clear_dependents al ?h1" unfolding e by simp
  show ?case unfolding eq Cons.IH[of ?h1] d1 by (auto simp: e)
qed

lemma add_dependents_frame: "only_dependents_differ h (add_dependents t c qs h)"
proof (induction qs arbitrary: h)
  case Nil
  show ?case by (simp add: only_dependents_differ_refl)
next
  case (Cons q qs)
  show ?case
  proof (cases "FindCourse t q")
    case None
    with Cons.IH show ?thesis by simp
  next
    case (Some p)
    let ?h1 = "h(p := (h p)\<lparr>dependentCourses := dependentCourses (h p) @ [courseId (h c)]\<rparr>)"
    have "only_dependents_differ h ?h1" by (rule only_dependents_differ_upd)
    moreover have "only_dependents_differ ?h1 (add_dependents t c qs ?h1)" by (rule Cons.IH)
    ultimately have "only_dependents_differ h (add_dependents t c qs ?h1)"
      by (rule only_dependents_differ_trans)
    with Some show ?thesis by simp
  qed
qed

lemma add_dependents_deps:
  "dependentCourses (add_dependents t c qs h p) =
     dependentCourses (h p) @ map (\<lambda>q. courseId (h c)) (filter (\<lambda>q. FindCourse t q = Some p) qs)"
proof (induction qs arbitrary: h)
  case Nil
  show ?case by simp
next
  case (Cons q qs)
  show ?case
  proof (cases "FindCourse t q")
    case None
    with Cons.IH show ?thesis by simp
  next
    case (Some r)
    let ?h1 = "h(r := (h r)\<lparr>dependentCourses := dependentCourses (h r) @ [courseId (h c)]\<rparr>)"
    have c1: "courseId (?h1 c) = courseId (h c)" by simp
    have d1: "dependentCourses (?h1 p) =
                (if p = r then dependentCourses (h p) @ [courseId (h c)] else dependentCourses (h p))"
      by simp
    have eq: "add_dependents t c (q # qs) h = add_dependents t c qs ?h1" using Some by simp
    show ?thesis unfolding eq Cons.IH[of ?h1] c1 d1 using Some by auto
  qed
qed

lemma build_dependents_frame: "only_dependents_differ h (build_dependents t al h)"
proof (induction al arbitrary: h)
  case Nil
  show ?case by (simp add: only_dependents_differ_refl)
next
  case (Cons e al)
  obtain k c where e: "e = (k, c)" by (cases e)
  let ?h1 = "add_dependents t c (prereqs (h c)) h"
  have "only_dependents_differ h ?h1" by (rule add_dependents_frame)
  moreover have "only_dependents_differ ?h1 (build_dependents t al ?h1)" by (rule Cons.IH)
  ultimately have "only_dependents_differ h (build_dependents t al ?h1)"
    by (rule only_dependents_differ_trans)
  with e show ?case by simp
qed

lemma build_dependents_deps:
  "dependentCourses (build_dependents t al h p) =
     dependentCourses (h p)
     @ concat (map (\<lambda>(k, c). map (\<lambda>q. courseId (h c))
                       (filter (\<lambda>q. FindCourse t q = Some p) (prereqs (h c)))) al)"
proof (induction al arbitrary: h)
  case Nil
  show ?case by simp
next
  case (Cons e al)
  obtain k c where e: "e = (k, c)" by (cases e)
  let ?h1 = "add_dependents t c (prereqs (h c)) h"
  have "only_dependents_differ h ?h1" by (rule add_dependents_frame)
  from only_dependents_differ_fields[OF this]
  have f: "\<And>x. courseId (?h1 x) = courseId (h x)" "\<And>x. prereqs (?h1 x) = prereqs (h x)"
    by simp_all
  from Cons.IH[of ?h1] e show ?case
    by (simp add: add_dependents_deps f)
qed

lemma BuildDependencyGraph_frame: "only_dependents_differ h (BuildDependencyGraph t h)"
  unfolding BuildDependencyGraph_def
  by (rule only_dependents_differ_trans[OF clear_dependents_frame build_dependents_frame])

lemma FindCourse_range: "FindCourse t k = Some p \<Longrightarrow> p \<in> snd ` set (courseMap t)"
  by (auto simp: FindCourse_def dest!: map_of_SomeD intro: rev_image_eqI)

lemma BuildDependencyGraph_deps:
  assumes "FindCourse t b = Some p"
  shows "set (dependentCourses (BuildDependencyGraph t h p)) =
           {courseId (h c) |k c q. (k, c) \<in> set (courseMap t) \<and> q \<in> set (prereqs (h c))
                                  \<and> FindCourse t q = Some p}"
proof -
  let ?h0 = "clear_dependents (courseMap t) h"
  have "only_dependents_differ h ?h0" by (rule clear_dependents_frame)
  from only_dependents_differ_fields[OF this]
  have f: "\<And>x. courseId (?h0 x) = courseId (h x)" "\<And>x. prereqs (?h0 x) = prereqs (h x)"
    by simp_all
  from FindCourse_range[OF assms] have "dependentCourses (?h0 p) = []"
    by (simp add: clear_dependents_deps)
  then show ?thesis
    unfolding BuildDependencyGraph_def build_dependents_deps f by force
qed

lemma sips_refl: "same_ids_and_prereq_sets h h"
  by (simp add: same_ids_and_prereq_sets_def)

lemma sips_trans:
  "same_ids_and_prereq_sets h h1 \<Longrightarrow> same_ids_and_prereq_sets h1 h2 \<Longrightarrow>
     same_ids_and_prereq_sets h h2"
  by (simp add: same_ids_and_prereq_sets_def)

lemma sips_odd: "only_dependents_differ h h' \<Longrightarrow> same_ids_and_prereq_sets h h'"
  by (simp add: same_ids_and_prereq_sets_def only_dependents_differ_fields)

lemma set_uniquePrereqs: "set (uniquePrereqs seen ps) = set ps - seen"
  by (induction ps arbitrary: seen) auto

lemma distinct_uniquePrereqs: "distinct (uniquePrereqs seen ps)"
  by (induction ps arbitrary: seen) (auto simp: set_uniquePrereqs)

lemma reset_courses_sips: "same_ids_and_prereq_sets h (reset_courses al h)"
proof (induction al arbitrary: h)
  case Nil
  show ?case by (simp add: sips_refl)
next
  case (Cons e al)
  obtain k c where e: "e = (k, c)" by (cases e)
  let ?h1 = "h(c := (h c)\<lparr>dependentCourses := [], isVisited := False, isProcessing := False\<rparr>)"
  have "same_ids_and_prereq_sets h ?h1" by (simp add: same_ids_and_prereq_sets_def)
  moreover have "same_ids_and_prereq_sets ?h1 (reset_courses al ?h1)" by (rule Cons.IH)
  ultimately have "same_ids_and_prereq_sets h (reset_courses al ?h1)" by (rule sips_trans)
  then show ?case unfolding e by simp
qed

lemma reset_courses_deps:
  "dependentCourses (reset_courses al h p) =
     (if p \<in> snd ` set al then [] else dependentCourses (h p))"
proof (induction al arbitrary: h)
  case Nil
  show ?case by simp
next
  case (Cons e al)
  obtain k c where e: "e = (k, c)" by (cases e)
  let ?h1 = "h(c := (h c)\<lparr>dependentCourses := [], isVisited := False, isProcessing := False\<rparr>)"
  have d1: "dependentCourses (?h1 p) = (if p = c then [] else dependentCourses (h p))"
    by simp
  have eq: "reset_courses (e # al) h = reset_courses al ?h1" unfolding e by simp
  show ?case unfolding eq Cons.IH[of ?h1] d1 by (auto simp: e)
qed

lemma add_dependents_Test_frame: "only_dependents_differ h (add_dependents_Test t c qs h)"
proof (induction qs arbitrary: h)
  case Nil
  show ?case by (simp add: only_dependents_differ_refl)
next
  case (Cons q qs)
  show ?case
  proof (cases "FindCourse t q")
    case None
    with Cons.IH show ?thesis by simp
  next
    case (Some p)
    show ?thesis
    proof (cases "courseId (h p) \<noteq> courseId (h c)")
      case True
      let ?h1 = "h(p := (h p)\<lparr>dependentCourses := dependentCourses (h p) @ [courseId (h c)]\<rparr>)"
      have "only_dependents_differ h ?h1" by (rule only_dependents_differ_upd)
      moreover have "only_dependents_differ ?h1 (add_dependents_Test t c qs ?h1)" by (rule Cons.IH)
      ultimately have "only_dependents_differ h (add_dependents_Test t c qs ?h1)"
        by (rule only_dependents_differ_trans)
      with Some True show ?thesis by simp
    next
      case False
      with Some Cons.IH[of h] show ?thesis by simp
    qed
  qed
qed

lemma add_dependents_Test_deps:
  "set (dependentCourses (add_dependents_Test t c qs h p)) =
     set (dependentCourses (h p))
     \<union> {courseId (h c) |q. q \<in> set qs \<and> FindCourse t q = Some p \<and> courseId (h p) \<noteq> courseId (h c)}"
proof (induction qs arbitrary: h)
  case Nil
  show ?case by simp
next
  case (Cons q qs)
  show ?case
  proof (cases "FindCourse t q")
    case None
    have eq: "add_dependents_Test t c (q # qs) h = add_dependents_Test t c qs h"
      using None by simp
    show ?thesis unfolding eq Cons.IH[of h] using None by auto
  next
    case (Some r)
    show ?thesis
    proof (cases "courseId (h r) \<noteq> courseId (h c)")
      case True
      let ?h1 = "h(r := (h r)\<lparr>dependentCourses := dependentCourses (h r) @ [courseId (h c)]\<rparr>)"
      have c1: "\<And>x. courseId (?h1 x) = courseId (h x)" by simp
      have d1: "dependentCourses (?h1 p) =
                  (if p = r then dependentCourses (h p) @ [courseId (h c)] else dependentCourses (h p))"
        by simp
      have eq: "add_dependents_Test t c (q # qs) h = add_dependents_Test t c qs ?h1"
        using Some True by simp
      show ?thesis unfolding eq Cons.IH[of ?h1] c1 d1 using Some True by auto
    next
      case False
      have eq: "add_dependents_Test t c (q # qs) h = add_dependents_Test t c qs h"
        using Some False by simp
      show ?thesis unfolding eq Cons.IH[of h] using Some False by auto
    qed
  qed
qed

lemma build_dependents_Test_sips: "same_ids_and_prereq_sets h (build_dependents_Test t al h)"
proof (induction al arbitrary: h)
  case Nil
  show ?case by (simp add: sips_refl)
next
  case (Cons e al)
  obtain k c where e: "e = (k, c)" by (cases e)
  let ?h1 = "h(c := (h c)\<lparr>prereqs := uniquePrereqs {} (prereqs (h c))\<rparr>)"
  let ?h2 = "add_dependents_Test t c (prereqs (?h1 c)) ?h1"
  have "same_ids_and_prereq_sets h ?h1"
    by (simp add: same_ids_and_prereq_sets_def set_uniquePrereqs)
  moreover have "same_ids_and_prereq_sets ?h1 ?h2"
    by (rule sips_odd[OF add_dependents_Test_frame])
  moreover have "same_ids_and_prereq_sets ?h2 (build_dependents_Test t al ?h2)" by (rule Cons.IH)
  ultimately have "same_ids_and_prereq_sets h (build_dependents_Test t al ?h2)"
    by (blast intro: sips_trans)
  then show ?case unfolding e by (simp add: Let_def)
qed

lemma build_dependents_Test_deps:
  "set (dependentCourses (build_dependents_Test t al h p)) =
     set (dependentCourses (h p))
     \<union> {courseId (h c) |k c q. (k, c) \<in> set al \<and> q \<in> set (prereqs (h c))
            \<and> FindCourse t q = Some p \<and> courseId (h p) \<noteq> courseId (h c)}"
proof (induction al arbitrary: h)
  case Nil
  show ?case by simp
next
  case (Cons e al)
  obtain k c where e: "e = (k, c)" by (cases e)
  let ?h1 = "h(c := (h c)\<lparr>prereqs := uniquePrereqs {} (prereqs (h c))\<rparr>)"
  let ?h2 = "add_dependents_Test t c (prereqs (?h1 c)) ?h1"
  have s1: "same_ids_and_prereq_sets h ?h1"
    by (simp add: same_ids_and_prereq_sets_def set_uniquePrereqs)
  have s2: "same_ids_and_prereq_sets h ?h2"
    by (rule sips_trans[OF s1 sips_odd[OF add_dependents_Test_frame]])
  have i1: "\<And>x. courseId (?h1 x) = courseId (h x)" by simp
  have p1: "set (prereqs (?h1 c)) = set (prereqs (h c))" by (simp add: set_uniquePrereqs)
  have d1: "dependentCourses (?h1 p) = dependentCourses (h p)" by simp
  from s2 have i2: "\<And>x. courseId (?h2 x) = courseId (h x)"
    and p2: "\<And>x. set (prereqs (?h2 x)) = set (prereqs (h x))"
    by (simp_all add: same_ids_and_prereq_sets_def)
  have eq: "build_dependents_Test t (e # al) h = build_dependents_Test t al ?h2"
    unfolding e by (simp add: Let_def)
  have step: "set (dependentCourses (?h2 p)) =
      set (dependentCourses (h p))
      \<union> {courseId (h c) |q. q \<in> set (prereqs (h c)) \<and> FindCourse t q = Some p
             \<and> courseId (h p) \<noteq> courseId (h c)}"
    unfolding add_dependents_Test_deps i1 p1 d1 ..
  show ?case unfolding eq Cons.IH[of ?h2] i2 p2 step by (auto simp: e)
qed

lemma BuildDependencyGraph_Test_sips:
  "same_ids_and_prereq_sets h (BuildDependencyGraph_Test t h)"
  unfolding BuildDependencyGraph_Test_def
  by (rule sips_trans[OF reset_courses_sips build_dependents_Test_sips])

lemma BuildDependencyGraph_Test_deps:
  assumes "FindCourse t b = Some p"
  shows "set (dependentCourses (BuildDependencyGraph_Test t h p)) =
           {courseId (h c) |k c q. (k, c) \<in> set (courseMap t) \<and> q \<in> set (prereqs (h c))
                                  \<and> FindCourse t q = Some p \<and> courseId (h p) \<noteq> courseId (h c)}"
proof -
  let ?h0 = "reset_courses (courseMap t) h"
  from reset_courses_sips[of h "courseMap t"]
  have f: "\<And>x. courseId (?h0 x) = courseId (h x)" "\<And>x. set (prereqs (?h0 x)) = set (prereqs (h x))"
    by (simp_all add: same_ids_and_prereq_sets_def)
  from FindCourse_range[OF assms] have "dependentCourses (?h0 p) = []"
    by (simp add: reset_courses_deps)
  then show ?thesis
    unfolding BuildDependencyGraph_Test_def build_dependents_Test_deps f by simp
qed

lemma map_ok_entry: "map_ok h t \<Longrightarrow> (k, c) \<in> set (courseMap t) \<Longrightarrow> FindCourse t k = Some c"
  by (simp add: map_ok_def FindCourse_def)

lemma FindCourse_entry: "FindCourse t k = Some c \<Longrightarrow> (k, c) \<in> set (courseMap t)"
  by (simp add: FindCourse_def map_of_SomeD)

lemma map_ok_entry_id: "map_ok h t \<Longrightarrow> (k, c) \<in> set (courseMap t) \<Longrightarrow> courseId (h c) = k"
  by (auto simp: map_ok_def list_all_iff)

text \<open>
  Claim C7, as amended. After \<^verbatim>\<open>BuildDependencyGraph\<close> of \<^verbatim>\<open>EnhancementTwo.cpp\<close>, for
  every record \<open>r\<close> of the hash map and every key \<open>d\<close> among its prerequisites, \<open>d\<close> is
  not in the catalog or the record under \<open>d\<close> has the key of \<open>r\<close> among its dependents;
  and a key \<open>a\<close> is among the dependents of the record under \<open>b\<close> only if the record
  under \<open>a\<close> lists \<open>b\<close> as a prerequisite. After \<^verbatim>\<open>BuildDependencyGraph\<close> of
  \<^verbatim>\<open>EnhancementTwoTest.cpp\<close> the same holds except for a record that lists its own key:
  a record is never among its own dependents.
\<close>

theorem BuildDependencyGraph_edges:
  assumes ok: "map_ok h t"
  shows "(\<forall>r c d. FindCourse t r = Some c \<and> d \<in> set (prereqs (BuildDependencyGraph t h c)) \<longrightarrow>
            FindCourse t d = None
            \<or> (\<exists>p. FindCourse t d = Some p \<and> r \<in> set (dependentCourses (BuildDependencyGraph t h p))))
       \<and> (\<forall>a b p. FindCourse t b = Some p \<and> a \<in> set (dependentCourses (BuildDependencyGraph t h p)) \<longrightarrow>
            (\<exists>c. FindCourse t a = Some c \<and> b \<in> set (prereqs (BuildDependencyGraph t h c))))
       \<and> (\<forall>r c d. FindCourse t r = Some c \<and> d \<in> set (prereqs (BuildDependencyGraph_Test t h c)) \<longrightarrow>
            FindCourse t d = None \<or> d = r
            \<or> (\<exists>p. FindCourse t d = Some p \<and> r \<in> set (dependentCourses (BuildDependencyGraph_Test t h p))))
       \<and> (\<forall>a b p. FindCourse t b = Some p \<and> a \<in> set (dependentCourses (BuildDependencyGraph_Test t h p)) \<longrightarrow>
            a \<noteq> b \<and> (\<exists>c. FindCourse t a = Some c \<and> b \<in> set (prereqs (BuildDependencyGraph_Test t h c))))"
proof (intro conjI)
 show "\<forall>r c d. FindCourse t r = Some c \<and> d \<in> set (prereqs (BuildDependencyGraph t h c)) \<longrightarrow>
            FindCourse t d = None
            \<or> (\<exists>p. FindCourse t d = Some p \<and> r \<in> set (dependentCourses (BuildDependencyGraph t h p)))"
 proof (intro allI impI)
  fix r c d
  assume a: "FindCourse t r = Some c \<and> d \<in> set (prereqs (BuildDependencyGraph t h c))"
  from only_dependents_differ_fields[OF BuildDependencyGraph_frame, of t h c] a
  have d: "d \<in> set (prereqs (h c))" by simp
  from a have e: "(r, c) \<in> set (courseMap t)" by (simp add: FindCourse_entry)
  from map_ok_key[OF ok] a have k: "courseId (h c) = r" by blast
  show "FindCourse t d = None
        \<or> (\<exists>p. FindCourse t d = Some p \<and> r \<in> set (dependentCourses (BuildDependencyGraph t h p)))"
  proof (cases "FindCourse t d")
    case None
    then show ?thesis by simp
  next
    case (Some p)
    from d e k Some have "r \<in> set (dependentCourses (BuildDependencyGraph t h p))"
      unfolding BuildDependencyGraph_deps[OF Some] by blast
    with Some show ?thesis by simp
  qed
 qed
next
 show "\<forall>a b p. FindCourse t b = Some p \<and> a \<in> set (dependentCourses (BuildDependencyGraph t h p)) \<longrightarrow>
            (\<exists>c. FindCourse t a = Some c \<and> b \<in> set (prereqs (BuildDependencyGraph t h c)))"
 proof (intro allI impI)
  fix a b p
  assume a: "FindCourse t b = Some p \<and> a \<in> set (dependentCourses (BuildDependencyGraph t h p))"
  then have f: "FindCourse t b = Some p" by simp
  from a obtain k c q where e: "(k, c) \<in> set (courseMap t)" and q: "q \<in> set (prereqs (h c))"
    and fq: "FindCourse t q = Some p" and ac: "a = courseId (h c)"
    unfolding BuildDependencyGraph_deps[OF f] by blast
  from map_ok_key[OF ok fq] map_ok_key[OF ok f] have "q = b" by simp
  moreover from map_ok_entry_id[OF ok e] map_ok_entry[OF ok e] ac have "FindCourse t a = Some c" by simp
  moreover from only_dependents_differ_fields[OF BuildDependencyGraph_frame, of t h c]
  have "prereqs (BuildDependencyGraph t h c) = prereqs (h c)" by simp
  ultimately show "\<exists>c. FindCourse t a = Some c \<and> b \<in> set (prereqs (BuildDependencyGraph t h c))"
    using q by auto
 qed
next
 show "\<forall>r c d. FindCourse t r = Some c \<and> d \<in> set (prereqs (BuildDependencyGraph_Test t h c)) \<longrightarrow>
            FindCourse t d = None \<or> d = r
            \<or> (\<exists>p. FindCourse t d = Some p \<and> r \<in> set (dependentCourses (BuildDependencyGraph_Test t h p)))"
 proof (intro allI impI)
  fix r c d
  assume a: "FindCourse t r = Some c \<and> d \<in> set (prereqs (BuildDependencyGraph_Test t h c))"
  from BuildDependencyGraph_Test_sips[of h t] a
  have d: "d \<in> set (prereqs (h c))" by (simp add: same_ids_and_prereq_sets_def)
  from a have e: "(r, c) \<in> set (courseMap t)" by (simp add: FindCourse_entry)
  from map_ok_key[OF ok] a have k: "courseId (h c) = r" by blast
  show "FindCourse t d = None \<or> d = r
        \<or> (\<exists>p. FindCourse t d = Some p \<and> r \<in> set (dependentCourses (BuildDependencyGraph_Test t h p)))"
  proof (cases "FindCourse t d")
    case None
    then show ?thesis by simp
  next
    case (Some p)
    show ?thesis
    proof (cases "d = r")
      case True
      then show ?thesis by simp
    next
      case False
      with map_ok_key[OF ok Some] k have "courseId (h p) \<noteq> courseId (h c)" by simp
      with d e k Some have "r \<in> set (dependentCourses (BuildDependencyGraph_Test t h p))"
        unfolding BuildDependencyGraph_Test_deps[OF Some] by blast
      with Some show ?thesis by simp
    qed
  qed
 qed
next
 show "\<forall>a b p. FindCourse t b = Some p \<and> a \<in> set (dependentCourses (BuildDependencyGraph_Test t h p)) \<longrightarrow>
            a \<noteq> b \<and> (\<exists>c. FindCourse t a = Some c \<and> b \<in> set (prereqs (BuildDependencyGraph_Test t h c)))"
 proof (intro allI impI)
  fix a b p
  assume a: "FindCourse t b = Some p \<and> a \<in> set (dependentCourses (BuildDependencyGraph_Test t h p))"
  then have f: "FindCourse t b = Some p" by simp
  from a obtain k c q where e: "(k, c) \<in> set (courseMap t)" and q: "q \<in> set (prereqs (h c))"
    and fq: "FindCourse t q = Some p" and ac: "a = courseId (h c)"
    and ne: "courseId (h p) \<noteq> courseId (h c)"
    unfolding BuildDependencyGraph_Test_deps[OF f] by blast
  from map_ok_key[OF ok fq] map_ok_key[OF ok f] have qb: "q = b" by simp
  from map_ok_key[OF ok f] ne ac have "a \<noteq> b" by simp
  moreover from map_ok_entry_id[OF ok e] map_ok_entry[OF ok e] ac have "FindCourse t a = Some c" by simp
  moreover from BuildDependencyGraph_Test_sips[of h t]
  have "set (prereqs (BuildDependencyGraph_Test t h c)) = set (prereqs (h c))"
    by (simp add: same_ids_and_prereq_sets_def)
  ultimately show "a \<noteq> b \<and> (\<exists>c. FindCourse t a = Some c \<and> b \<in> set (prereqs (BuildDependencyGraph_Test t h c)))"
    using q qb by auto
 qed
qed

theorem BuildDependencyGraph_edges_witness:
  "map_ok chain_store chain_tree
   \<and> FindCourse chain_tree ''CS200'' = Some 1
   \<and> ''CS100'' \<in> set (prereqs (BuildDependencyGraph chain_tree chain_store 1))
   \<and> FindCourse chain_tree ''CS100'' = Some 0
   \<and> ''CS200'' \<in> set (dependentCourses (BuildDependencyGraph chain_tree chain_store 0))
   \<and> dependentCourses (BuildDependencyGraph chain_tree chain_store 0) = [''CS200'']
   \<and> dependentCourses (BuildDependencyGraph_Test chain_tree chain_store 0) = [''CS200'']"
proof -
  have ok: "map_ok chain_store chain_tree" by code_simp
  have f: "FindCourse chain_tree ''CS200'' = Some 1" by code_simp
  have g: "FindCourse chain_tree ''CS100'' = Some 0" by code_simp
  have p: "''CS100'' \<in> set (prereqs (BuildDependencyGraph chain_tree chain_store 1))" by code_simp
  have d: "dependentCourses (BuildDependencyGraph chain_tree chain_store 0) = [''CS200'']" by code_simp
  have d': "dependentCourses (BuildDependencyGraph_Test chain_tree chain_store 0) = [''CS200'']"
    by code_simp
  note c1 = conjunct1[OF BuildDependencyGraph_edges[OF ok]]
  from c1[rule_format, of "''CS200''" 1 "''CS100''"] f p g
  have "''CS200'' \<in> set (dependentCourses (BuildDependencyGraph chain_tree chain_store 0))"
    by simp
  with ok f g p d d' show ?thesis by blast
qed

text \<open>
  Claim C7 as stated fails in two ways. In the test-harness build SELF100 lists SELF100,
  which is in the catalog, and after the rebuild SELF100 has no dependents. In
  \<^verbatim>\<open>EnhancementTwo.cpp\<close>, after two courses with the id CS101 were inserted, the tree
  still holds the first one (address 1), which lists CS050; the hash map holds the second
  one, which does not, so after the rebuild CS050 has no dependents.
\<close>

theorem BuildDependencyGraph_edges_counterexample:
  "map_ok self_store self_tree
   \<and> FindCourse self_tree ''SELF100'' = Some 0
   \<and> prereqs (BuildDependencyGraph_Test self_tree self_store 0) = [''SELF100'']
   \<and> dependentCourses (BuildDependencyGraph_Test self_tree self_store 0) = []
   \<and> inorder (root (insert_all dup_store [1, 0, 2] empty_tree)) = [2, 1, 0]
   \<and> courseId (dup_store 1) = ''CS101''
   \<and> prereqs (BuildDependencyGraph (insert_all dup_store [1, 0, 2] empty_tree) dup_store 1) = [''CS050'']
   \<and> FindCourse (insert_all dup_store [1, 0, 2] empty_tree) ''CS050'' = Some 2
   \<and> dependentCourses (BuildDependencyGraph (insert_all dup_store [1, 0, 2] empty_tree) dup_store 2) = []"
  by code_simp

section \<open>The queries of the test-harness build\<close>

lemma oipd_refl: "only_isProcessing_differs h h"
  by (simp add: only_isProcessing_differs_def)

lemma oipd_trans:
  "only_isProcessing_differs h h1 \<Longrightarrow> only_isProcessing_differs h1 h2 \<Longrightarrow>
     only_isProcessing_differs h h2"
  unfolding only_isProcessing_differs_def
proof
  fix p assume a: "\<forall>p. h1 p = (h p)\<lparr>isProcessing := isProcessing (h1 p)\<rparr>"
    and b: "\<forall>p. h2 p = (h1 p)\<lparr>isProcessing := isProcessing (h2 p)\<rparr>"
  from b have "h2 p = (h1 p)\<lparr>isProcessing := isProcessing (h2 p)\<rparr>" ..
  also from a have "h1 p = (h p)\<lparr>isProcessing := isProcessing (h1 p)\<rparr>" ..
  finally show "h2 p = (h p)\<lparr>isProcessing := isProcessing (h2 p)\<rparr>" by simp
qed

lemma oipd_upd: "only_isProcessing_differs h (h(p := (h p)\<lparr>isProcessing := b\<rparr>))"
  by (simp add: only_isProcessing_differs_def)

lemma oipd_fields:
  assumes "only_isProcessing_differs h h'"
  shows "courseId (h' p) = courseId (h p)" "courseTitle (h' p) = courseTitle (h p)"
    "prereqs (h' p) = prereqs (h p)" "dependentCourses (h' p) = dependentCourses (h p)"
    "isVisited (h' p) = isVisited (h p)"
proof -
  from assms have e: "h' p = (h p)\<lparr>isProcessing := isProcessing (h' p)\<rparr>"
    unfolding only_isProcessing_differs_def ..
  show "courseId (h' p) = courseId (h p)" by (subst e) simp
  show "courseTitle (h' p) = courseTitle (h p)" by (subst e) simp
  show "prereqs (h' p) = prereqs (h p)" by (subst e) simp
  show "dependentCourses (h' p) = dependentCourses (h p)" by (subst e) simp
  show "isVisited (h' p) = isVisited (h p)" by (subst e) simp
qed

lemma oipd_same_graph: "only_isProcessing_differs h h' \<Longrightarrow> same_graph h h'"
  by (simp add: same_graph_def oipd_fields)

lemma hasCycle_cong:
  "same_graph h h' \<Longrightarrow> hasCycle n h t co vs = hasCycle n h' t co vs"
  "same_graph h h' \<Longrightarrow> hasCycle_loop n h t c ps vs = hasCycle_loop n h' t c ps vs"
proof (induction n h t co vs and n h t c ps vs rule: hasCycle_hasCycle_loop.induct)
  case (2 h t course visited recursionStack)
  show ?case by simp
next
  case (1 n h t visited recursionStack)
  show ?case by simp
next
  case (3 n h t course visited recursionStack)
  from "3.prems" have "courseId (h' course) = courseId (h course)" "prereqs (h' course) = prereqs (h course)"
    by (simp_all add: same_graph_def)
  with "3.IH"[OF "3.prems"] show ?case by simp
next
  case (4 n h t course visited recursionStack)
  from "4.prems" have "courseId (h' course) = courseId (h course)"
    by (simp add: same_graph_def)
  then show ?case by simp
next
  case (5 n h t course prereqId rest visited recursionStack)
  note sg = "5.prems"
  show ?case
  proof (cases "FindCourse t prereqId")
    case None
    with "5.IH"(1)[OF None sg] show ?thesis by simp
  next
    case (Some prereq)
    show ?thesis
    proof (cases "prereqId \<in> recursionStack")
      case True
      with Some show ?thesis by simp
    next
      case ns: False
      show ?thesis
      proof (cases "prereqId \<in> visited")
        case True
        with "5.IH"(4)[OF Some ns _ sg] Some ns show ?thesis by simp
      next
        case nv: False
        note rec = "5.IH"(2)[OF Some ns nv sg]
        show ?thesis
        proof (cases "hasCycle n h t (Some prereq) (visited, recursionStack)")
          case None
          with rec Some ns nv show ?thesis by simp
        next
          case (Some res)
          obtain f v1 s1 where res: "res = (f, v1, s1)" by (cases res)
          from Some res have r1: "hasCycle n h t (Some prereq) (visited, recursionStack) = Some (f, v1, s1)"
            by simp
          with rec have r2: "hasCycle n h' t (Some prereq) (visited, recursionStack) = Some (f, v1, s1)"
            by simp
          show ?thesis
          proof (cases f)
            case True
            with r1 r2 \<open>FindCourse t prereqId = Some prereq\<close> ns nv show ?thesis by simp
          next
            case False
            from "5.IH"(3)[OF \<open>FindCourse t prereqId = Some prereq\<close> ns nv r1 refl refl False sg]
              r1 r2 \<open>FindCourse t prereqId = Some prereq\<close> ns nv False
            show ?thesis by simp
          qed
        qed
      qed
    qed
  qed
qed

lemma topo_cong:
  "same_graph h h' \<Longrightarrow> topologicalSortUtil n h t c vs = topologicalSortUtil n h' t c vs"
  "same_graph h h' \<Longrightarrow> visit_prereqs n h t ps vs = visit_prereqs n h' t ps vs"
proof (induction n h t c vs and n h t ps vs rule: topologicalSortUtil_visit_prereqs.induct)
  case (1 h t course visited Stack)
  show ?case by simp
next
  case (2 n h t course visited Stack)
  from "2.prems" have "courseId (h' course) = courseId (h course)" "prereqs (h' course) = prereqs (h course)"
    by (simp_all add: same_graph_def)
  with "2.IH"[OF "2.prems"] show ?case by simp
next
  case (3 n h t visited Stack)
  show ?case by simp
next
  case (4 n h t prereqId rest visited Stack)
  note sg = "4.prems"
  show ?case
  proof (cases "FindCourse t prereqId")
    case None
    with "4.IH"(1)[OF None sg] show ?thesis by simp
  next
    case (Some prereq)
    show ?thesis
    proof (cases "prereqId \<in> visited")
      case True
      with "4.IH"(4)[OF Some _ sg] Some show ?thesis by simp
    next
      case nv: False
      note rec = "4.IH"(2)[OF Some nv sg]
      show ?thesis
      proof (cases "topologicalSortUtil n h t prereq (visited, Stack)")
        case None
        with rec Some nv show ?thesis by simp
      next
        case (Some res)
        obtain v1 S1 where res: "res = (v1, S1)" by (cases res)
        from Some res have r1: "topologicalSortUtil n h t prereq (visited, Stack) = Some (v1, S1)"
          by simp
        with rec have r2: "topologicalSortUtil n h' t prereq (visited, Stack) = Some (v1, S1)"
          by simp
        from "4.IH"(3)[OF \<open>FindCourse t prereqId = Some prereq\<close> nv r1 refl sg]
          r1 r2 \<open>FindCourse t prereqId = Some prereq\<close> nv
        show ?thesis by simp
      qed
    qed
  qed
qed

lemma hasCycle_Test_sim:
  "\<exists>h'. only_isProcessing_differs h h'
         \<and> hasCycle_Test n t co vs h = map_option (\<lambda>res. (res, h')) (hasCycle n h t co vs)"
  "\<exists>h'. only_isProcessing_differs h h'
         \<and> hasCycle_loop_Test n t c ps vs h = map_option (\<lambda>res. (res, h')) (hasCycle_loop n h t c ps vs)"
proof (induction n t co vs h and n t c ps vs h rule: hasCycle_Test_hasCycle_loop_Test.induct)
  case (2 t course visited recursionStack h)
  show ?case using oipd_refl[of h] by auto
next
  case (1 n t visited recursionStack h)
  show ?case using oipd_refl[of h] by auto
next
  case (3 n t course visited recursionStack h)
  from "3.IH" show ?case by simp
next
  case (4 n t course visited recursionStack h)
  show ?case using oipd_upd[of h course False] by auto
next
  case (5 n t course prereqId rest visited recursionStack h)
  show ?case
  proof (cases "FindCourse t prereqId")
    case None
    with "5.IH"(1)[OF None] show ?thesis by simp
  next
    case (Some prereq)
    show ?thesis
    proof (cases "prereqId \<in> recursionStack")
      case True
      let ?h1 = "h(course := (h course)\<lparr>isProcessing := True\<rparr>)"
      let ?h2 = "?h1(prereq := (?h1 prereq)\<lparr>isProcessing := True\<rparr>)"
      have A: "only_isProcessing_differs h ?h2"
        by (rule oipd_trans[OF oipd_upd oipd_upd])
      have B: "hasCycle_loop_Test n t course (prereqId # rest) (visited, recursionStack) h
          = Some ((True, visited, recursionStack), ?h2)"
        using Some True by (simp add: Let_def)
      have C: "hasCycle_loop n h t course (prereqId # rest) (visited, recursionStack)
          = Some (True, visited, recursionStack)"
        using Some True by simp
      show ?thesis unfolding B C option.map
        by (rule exI[of _ ?h2]) (rule conjI[OF A refl])
    next
      case ns: False
      show ?thesis
      proof (cases "prereqId \<in> visited")
        case True
        with "5.IH"(4)[OF Some ns] Some ns show ?thesis by simp
      next
        case nv: False
        let ?h1 = "h(prereq := (h prereq)\<lparr>isProcessing := True\<rparr>)"
        have d1: "only_isProcessing_differs h ?h1" by (rule oipd_upd)
        from "5.IH"(2)[OF Some ns nv] obtain h2 where
          d2: "only_isProcessing_differs ?h1 h2"
          and e2: "hasCycle_Test n t (Some prereq) (visited, recursionStack) ?h1
                   = map_option (\<lambda>res. (res, h2)) (hasCycle n ?h1 t (Some prereq) (visited, recursionStack))"
          by blast
        have c1: "hasCycle n ?h1 t (Some prereq) (visited, recursionStack)
                  = hasCycle n h t (Some prereq) (visited, recursionStack)"
          by (rule hasCycle_cong(1)[symmetric, OF oipd_same_graph[OF d1]])
        show ?thesis
        proof (cases "hasCycle n h t (Some prereq) (visited, recursionStack)")
          case None
          with e2 c1 Some ns nv show ?thesis using oipd_refl[of h] by auto
        next
          case (Some res)
          obtain f v1 s1 where res: "res = (f, v1, s1)" by (cases res)
          from Some res have r1: "hasCycle n h t (Some prereq) (visited, recursionStack) = Some (f, v1, s1)"
            by simp
          with e2 c1 have rT: "hasCycle_Test n t (Some prereq) (visited, recursionStack) ?h1
                               = Some ((f, v1, s1), h2)"
            by simp
          show ?thesis
          proof (cases f)
            case True
            have A: "only_isProcessing_differs h h2" by (rule oipd_trans[OF d1 d2])
            have B: "hasCycle_loop_Test n t course (prereqId # rest) (visited, recursionStack) h
                = Some ((True, v1, s1), h2)"
              using \<open>FindCourse t prereqId = Some prereq\<close> ns nv rT True by simp
            have C: "hasCycle_loop n h t course (prereqId # rest) (visited, recursionStack)
                = Some (True, v1, s1)"
              using \<open>FindCourse t prereqId = Some prereq\<close> ns nv r1 True by simp
            show ?thesis unfolding B C option.map
              by (rule exI[of _ h2]) (rule conjI[OF A refl])
          next
            case False
            let ?h3 = "h2(prereq := (h2 prereq)\<lparr>isProcessing := False\<rparr>)"
            have d3: "only_isProcessing_differs h ?h3"
              by (rule oipd_trans[OF oipd_trans[OF d1 d2] oipd_upd])
            from "5.IH"(3)[OF \<open>FindCourse t prereqId = Some prereq\<close> ns nv rT refl refl refl False]
            obtain h' where
              d4: "only_isProcessing_differs ?h3 h'"
              and e4: "hasCycle_loop_Test n t course rest (v1, s1) ?h3
                       = map_option (\<lambda>res. (res, h')) (hasCycle_loop n ?h3 t course rest (v1, s1))"
              by blast
            have c3: "hasCycle_loop n ?h3 t course rest (v1, s1) = hasCycle_loop n h t course rest (v1, s1)"
              by (rule hasCycle_cong(2)[symmetric, OF oipd_same_graph[OF d3]])
            have A: "only_isProcessing_differs h h'" by (rule oipd_trans[OF d3 d4])
            have B: "hasCycle_loop_Test n t course (prereqId # rest) (visited, recursionStack) h
                = hasCycle_loop_Test n t course rest (v1, s1) ?h3"
              using \<open>FindCourse t prereqId = Some prereq\<close> ns nv rT False by simp
            have C: "hasCycle_loop n h t course (prereqId # rest) (visited, recursionStack)
                = hasCycle_loop n h t course rest (v1, s1)"
              using \<open>FindCourse t prereqId = Some prereq\<close> ns nv r1 False by simp
            show ?thesis unfolding B C e4 c3
              by (rule exI[of _ h']) (rule conjI[OF A refl])
          qed
        qed
      qed
    qed
  qed
qed

lemma HasPrerequisiteCycle_Test_sim:
  "\<exists>h'. only_isProcessing_differs h h'
     \<and> HasPrerequisiteCycle_Test t k h = map_option (\<lambda>r. (r, h')) (HasPrerequisiteCycle h t k)"
proof (cases "FindCourse t k")
  case None
  show ?thesis unfolding HasPrerequisiteCycle_Test_def HasPrerequisiteCycle_def None
    using oipd_refl[of h] by auto
next
  case (Some course)
  from hasCycle_Test_sim(1)[of h "length (courseMap t)" t "Some course" "({}, {})"]
  obtain h' where d: "only_isProcessing_differs h h'"
    and e: "hasCycle_Test (length (courseMap t)) t (Some course) ({}, {}) h
            = map_option (\<lambda>res. (res, h')) (hasCycle (length (courseMap t)) h t (Some course) ({}, {}))"
    by blast
  have "HasPrerequisiteCycle_Test t k h = map_option (\<lambda>r. (r, h')) (HasPrerequisiteCycle h t k)"
    using Some e
    by (cases "hasCycle (length (courseMap t)) h t (Some course) ({}, {})")
       (auto simp: HasPrerequisiteCycle_Test_def HasPrerequisiteCycle_def)
  with d show ?thesis by blast
qed

lemma GetPrerequisiteOrder_Test_sim:
  "\<exists>h'. only_isProcessing_differs h h'
     \<and> GetPrerequisiteOrder_Test t k h = map_option (\<lambda>r. (r, h')) (GetPrerequisiteOrder h t k)"
proof (cases "FindCourse t k")
  case None
  show ?thesis unfolding GetPrerequisiteOrder_Test_def GetPrerequisiteOrder_def None
    using oipd_refl[of h] by auto
next
  case (Some course)
  let ?n = "length (courseMap t)"
  from hasCycle_Test_sim(1)[of h ?n t "Some course" "({}, {})"]
  obtain h' where d: "only_isProcessing_differs h h'"
    and e: "hasCycle_Test ?n t (Some course) ({}, {}) h
            = map_option (\<lambda>res. (res, h')) (hasCycle ?n h t (Some course) ({}, {}))"
    by blast
  have p: "prereqs (h' course) = prereqs (h course)" using d by (rule oipd_fields)
  have v: "visit_prereqs ?n h' t (prereqs (h course)) ({}, [])
           = visit_prereqs ?n h t (prereqs (h course)) ({}, [])"
    by (rule topo_cong(2)[symmetric, OF oipd_same_graph[OF d]])
  have "GetPrerequisiteOrder_Test t k h = map_option (\<lambda>r. (r, h')) (GetPrerequisiteOrder h t k)"
  proof (cases "hasCycle ?n h t (Some course) ({}, {})")
    case None
    with \<open>FindCourse t k = Some course\<close> e show ?thesis
      by (simp add: GetPrerequisiteOrder_Test_def GetPrerequisiteOrder_def HasPrerequisiteCycle_def)
  next
    case (Some res)
    obtain f v1 s1 where res: "res = (f, v1, s1)" by (cases res)
    from \<open>FindCourse t k = Some course\<close> e Some res show ?thesis
      by (cases f; cases "visit_prereqs ?n h t (prereqs (h course)) ({}, [])")
         (auto simp: GetPrerequisiteOrder_Test_def GetPrerequisiteOrder_def
            HasPrerequisiteCycle_def p v)
  qed
  with d show ?thesis by blast
qed

text \<open>
  Claim C3. In both builds \<^verbatim>\<open>GetPrerequisiteOrder\<close> throws "Course not found" for a key
  that is not in the catalog and the circular-dependency error whenever the cycle test
  returns true, that is whenever a cycle can be reached from the key; the cycle test
  comes first, so no list is returned then. The call always returns.
\<close>

theorem GetPrerequisiteOrder_errors:
  assumes ok: "map_ok h t"
  shows "(FindCourse t k = None \<longrightarrow>
            GetPrerequisiteOrder h t k = Some (Inl (NotFound k))
            \<and> GetPrerequisiteOrder_Test t k h = Some (Inl (NotFound k), h))
       \<and> (HasPrerequisiteCycle h t k = Some (Inr True) \<longrightarrow>
            GetPrerequisiteOrder h t k = Some (Inl (CycleDetected k)))
       \<and> (\<forall>h'. HasPrerequisiteCycle_Test t k h = Some (Inr True, h') \<longrightarrow>
            GetPrerequisiteOrder_Test t k h = Some (Inl (CycleDetected k), h'))
       \<and> (FindCourse t k \<noteq> None \<and> cycle_reachable h t k \<longrightarrow>
            GetPrerequisiteOrder h t k = Some (Inl (CycleDetected k))
            \<and> (\<exists>h'. GetPrerequisiteOrder_Test t k h = Some (Inl (CycleDetected k), h')))
       \<and> (\<exists>r. GetPrerequisiteOrder h t k = Some r)
       \<and> (\<exists>r. GetPrerequisiteOrder_Test t k h = Some r)"
proof -
  note aux = GetPrerequisiteOrder_errors_aux[OF ok, of k]
  from GetPrerequisiteOrder_Test_sim[of h t k] obtain h1 where
    sim: "GetPrerequisiteOrder_Test t k h = map_option (\<lambda>r. (r, h1)) (GetPrerequisiteOrder h t k)"
    by blast
  have a: "FindCourse t k = None \<longrightarrow> GetPrerequisiteOrder_Test t k h = Some (Inl (NotFound k), h)"
    by (simp add: GetPrerequisiteOrder_Test_def)
  have b: "\<forall>h'. HasPrerequisiteCycle_Test t k h = Some (Inr True, h') \<longrightarrow>
            GetPrerequisiteOrder_Test t k h = Some (Inl (CycleDetected k), h')"
    by (auto simp: HasPrerequisiteCycle_Test_def GetPrerequisiteOrder_Test_def split: option.splits)
  have c: "FindCourse t k \<noteq> None \<and> cycle_reachable h t k \<longrightarrow>
            (\<exists>h'. GetPrerequisiteOrder_Test t k h = Some (Inl (CycleDetected k), h'))"
    using aux sim by auto
  have d: "\<exists>r. GetPrerequisiteOrder_Test t k h = Some r"
    using aux sim by auto
  from aux a b c d show ?thesis by blast
qed

theorem GetPrerequisiteOrder_errors_witness:
  "map_ok cycle_store cycle_tree
   \<and> FindCourse cycle_tree ''CS999'' = None
   \<and> GetPrerequisiteOrder cycle_store cycle_tree ''CS999'' = Some (Inl (NotFound ''CS999''))
   \<and> GetPrerequisiteOrder_Test cycle_tree ''CS999'' cycle_store = Some (Inl (NotFound ''CS999''), cycle_store)
   \<and> HasPrerequisiteCycle cycle_store cycle_tree ''CS100'' = Some (Inr True)
   \<and> GetPrerequisiteOrder cycle_store cycle_tree ''CS100'' = Some (Inl (CycleDetected ''CS100''))
   \<and> map_option fst (GetPrerequisiteOrder_Test cycle_tree ''CS100'' cycle_store)
        = Some (Inl (CycleDetected ''CS100''))"
proof -
  have ok: "map_ok cycle_store cycle_tree" by code_simp
  have n: "FindCourse cycle_tree ''CS999'' = None" by code_simp
  have c: "HasPrerequisiteCycle cycle_store cycle_tree ''CS100'' = Some (Inr True)" by code_simp
  have f: "FindCourse cycle_tree ''CS100'' \<noteq> None" by code_simp
  from HasPrerequisiteCycle_char[OF ok, of "''CS100''"] c f
  have cr: "cycle_reachable cycle_store cycle_tree ''CS100''" by auto
  from GetPrerequisiteOrder_errors[OF ok, of "''CS999''"] n
  have a: "GetPrerequisiteOrder cycle_store cycle_tree ''CS999'' = Some (Inl (NotFound ''CS999''))"
    "GetPrerequisiteOrder_Test cycle_tree ''CS999'' cycle_store = Some (Inl (NotFound ''CS999''), cycle_store)"
    by blast+
  from GetPrerequisiteOrder_errors[OF ok, of "''CS100''"] c
  have b: "GetPrerequisiteOrder cycle_store cycle_tree ''CS100'' = Some (Inl (CycleDetected ''CS100''))"
    by blast
  from GetPrerequisiteOrder_errors[OF ok, of "''CS100''"] f cr
  have "\<exists>h'. GetPrerequisiteOrder_Test cycle_tree ''CS100'' cycle_store = Some (Inl (CycleDetected ''CS100''), h')"
    by blast
  then have d: "map_option fst (GetPrerequisiteOrder_Test cycle_tree ''CS100'' cycle_store)
        = Some (Inl (CycleDetected ''CS100''))" by auto
  from ok n a c b d show ?thesis by blast
qed

lemma frame_fields:
  assumes "only_isProcessing_differs h h'"
  shows "\<forall>p. courseId (h' p) = courseId (h p) \<and> courseTitle (h' p) = courseTitle (h p)
           \<and> prereqs (h' p) = prereqs (h p) \<and> dependentCourses (h' p) = dependentCourses (h p)
           \<and> isVisited (h' p) = isVisited (h p)"
  using oipd_fields[OF assms] by blast

text \<open>
  Claim C9, as amended. In \<^verbatim>\<open>EnhancementTwo.cpp\<close> the two queries take the store as an
  input and write to no course. In \<^verbatim>\<open>EnhancementTwoTest.cpp\<close> they return, with the
  same result, a store in which every course has its id, title, prerequisites,
  dependents and \<^verbatim>\<open>isVisited\<close> flag as before the call; only \<^verbatim>\<open>isProcessing\<close> may have
  changed.
\<close>

theorem queries_write_only_isProcessing:
  assumes ok: "map_ok h t"
  shows "(\<exists>r h'. HasPrerequisiteCycle_Test t k h = Some (r, h') \<and> HasPrerequisiteCycle h t k = Some r
            \<and> (\<forall>p. courseId (h' p) = courseId (h p) \<and> courseTitle (h' p) = courseTitle (h p)
                  \<and> prereqs (h' p) = prereqs (h p) \<and> dependentCourses (h' p) = dependentCourses (h p)
                  \<and> isVisited (h' p) = isVisited (h p)))
       \<and> (\<exists>r h'. GetPrerequisiteOrder_Test t k h = Some (r, h') \<and> GetPrerequisiteOrder h t k = Some r
            \<and> (\<forall>p. courseId (h' p) = courseId (h p) \<and> courseTitle (h' p) = courseTitle (h p)
                  \<and> prereqs (h' p) = prereqs (h p) \<and> dependentCourses (h' p) = dependentCourses (h p)
                  \<and> isVisited (h' p) = isVisited (h p)))"
proof
  from HasPrerequisiteCycle_char[OF ok, of k] obtain r where
    r: "HasPrerequisiteCycle h t k = Some r" by (auto split: option.splits)
  from HasPrerequisiteCycle_Test_sim[of h t k] obtain h' where
    d: "only_isProcessing_differs h h'"
    and s: "HasPrerequisiteCycle_Test t k h = map_option (\<lambda>r. (r, h')) (HasPrerequisiteCycle h t k)"
    by blast
  from s r have "HasPrerequisiteCycle_Test t k h = Some (r, h')" by simp
  with r frame_fields[OF d] show "\<exists>r h'. HasPrerequisiteCycle_Test t k h = Some (r, h')
            \<and> HasPrerequisiteCycle h t k = Some r
            \<and> (\<forall>p. courseId (h' p) = courseId (h p) \<and> courseTitle (h' p) = courseTitle (h p)
                  \<and> prereqs (h' p) = prereqs (h p) \<and> dependentCourses (h' p) = dependentCourses (h p)
                  \<and> isVisited (h' p) = isVisited (h p))"
    by blast
next
  from GetPrerequisiteOrder_errors_aux[OF ok, of k] obtain r where
    r: "GetPrerequisiteOrder h t k = Some r" by blast
  from GetPrerequisiteOrder_Test_sim[of h t k] obtain h' where
    d: "only_isProcessing_differs h h'"
    and s: "GetPrerequisiteOrder_Test t k h = map_option (\<lambda>r. (r, h')) (GetPrerequisiteOrder h t k)"
    by blast
  from s r have "GetPrerequisiteOrder_Test t k h = Some (r, h')" by simp
  with r frame_fields[OF d] show "\<exists>r h'. GetPrerequisiteOrder_Test t k h = Some (r, h')
            \<and> GetPrerequisiteOrder h t k = Some r
            \<and> (\<forall>p. courseId (h' p) = courseId (h p) \<and> courseTitle (h' p) = courseTitle (h p)
                  \<and> prereqs (h' p) = prereqs (h p) \<and> dependentCourses (h' p) = dependentCourses (h p)
                  \<and> isVisited (h' p) = isVisited (h p))"
    by blast
qed

theorem queries_write_only_isProcessing_witness:
  "map_ok cycle_store cycle_tree
   \<and> map_option fst (HasPrerequisiteCycle_Test cycle_tree ''CS100'' cycle_store) = Some (Inr True)
   \<and> map_option fst (GetPrerequisiteOrder_Test chain_tree ''CS300'' chain_store) = Some (Inr [0, 1])"
proof -
  have ok: "map_ok cycle_store cycle_tree" by code_simp
  have ok': "map_ok chain_store chain_tree" by code_simp
  have a: "HasPrerequisiteCycle cycle_store cycle_tree ''CS100'' = Some (Inr True)" by code_simp
  have b: "GetPrerequisiteOrder chain_store chain_tree ''CS300'' = Some (Inr [0, 1])" by code_simp
  from queries_write_only_isProcessing[OF ok, of "''CS100''"] a
  have c: "map_option fst (HasPrerequisiteCycle_Test cycle_tree ''CS100'' cycle_store) = Some (Inr True)"
    by auto
  from queries_write_only_isProcessing[OF ok', of "''CS300''"] b
  have d: "map_option fst (GetPrerequisiteOrder_Test chain_tree ''CS300'' chain_store) = Some (Inr [0, 1])"
    by auto
  from ok c d show ?thesis by blast
qed

text \<open>
  Claim C9 as stated fails in the test-harness build: both queries on CS100 of the
  two-course cycle set the \<^verbatim>\<open>isProcessing\<close> flags of both courses, which were false.
\<close>

theorem hasCycle_writes_isProcessing_counterexample:
  "map_ok cycle_store cycle_tree
   \<and> flags_after (Some ((), cycle_store)) [0, 1] = Some [False, False]
   \<and> flags_after (HasPrerequisiteCycle_Test cycle_tree ''CS100'' cycle_store) [0, 1] = Some [True, True]
   \<and> flags_after (GetPrerequisiteOrder_Test cycle_tree ''CS100'' cycle_store) [0, 1] = Some [True, True]"
  by code_simp

section \<open>Prerequisite validation reports\<close>





























section \<open>Key validation in both builds\<close>

lemma isValidCourseId_iff: "isValidCourseId k \<longleftrightarrow> structurally_valid k"
proof
  assume v: "isValidCourseId k"
  define i where "i = length (takeWhile isalpha k)"
  from v have f: "length k \<le> 20" "2 \<le> i" "i \<le> 4" "list_all isdigit (drop i k)" "3 \<le> length k - i"
    by (simp_all add: isValidCourseId_takeWhile Let_def i_def)
  have tk: "take i k = takeWhile isalpha k"
    unfolding i_def by (metis takeWhile_eq_take)
  have "k = takeWhile isalpha k @ drop i k"
    using tk by (metis append_take_drop_id)
  moreover have "list_all isalpha (takeWhile isalpha k)"
    by (simp add: list_all_iff) (meson set_takeWhileD)
  moreover have "length (takeWhile isalpha k) = i" by (simp add: i_def)
  ultimately show "structurally_valid k"
    unfolding structurally_valid_def using f
    by (intro conjI exI[of _ "takeWhile isalpha k"] exI[of _ "drop i k"]) simp_all
next
  assume "structurally_valid k"
  then obtain ls ds where k: "k = ls @ ds" and l: "2 \<le> length ls" "length ls \<le> 4" "list_all isalpha ls"
    and d: "3 \<le> length ds" "list_all isdigit ds" and n: "length k \<le> 20"
    unfolding structurally_valid_def by blast
  have "takeWhile isalpha k = ls"
    using k l(3) d(2) by (simp add: takeWhile_letters_digits)
  with k l d n show "isValidCourseId k"
    by (simp add: isValidCourseId_takeWhile Let_def)
qed

lemma isValidCourseId_Test_iff:
  "isValidCourseId_Test k \<longleftrightarrow> isTestCase k \<or> (isValidCourseId k \<and> length k \<le> 7)"
  by (auto simp: isValidCourseId_Test_def isValidCourseId_takeWhile scan_letters_takeWhile
        scan_digits_all Let_def length_takeWhile_le)

lemma Insert_Test_invalid:
  "\<not> isValidCourseId_Test (courseId (h c)) \<Longrightarrow>
     Insert_Test h (Some c) t = (Some (InvalidKey (courseId (h c))), t)"
  by (simp add: Insert_Test_def)

text \<open>
  Claim C5, as amended. \<^verbatim>\<open>isValidCourseId\<close> of \<^verbatim>\<open>EnhancementTwo.cpp\<close> accepts exactly
  the structurally valid keys. \<^verbatim>\<open>isValidCourseId\<close> of \<^verbatim>\<open>EnhancementTwoTest.cpp\<close>
  accepts exactly the keys that start with a test prefix and the structurally valid keys
  of at most 7 characters. In both builds \<^verbatim>\<open>Insert\<close> of a course whose id fails the
  check throws the invalid-id error and leaves the catalog as it was.
\<close>

theorem key_format_checks:
  "(isValidCourseId k \<longleftrightarrow> structurally_valid k)
   \<and> (isValidCourseId_Test k \<longleftrightarrow> isTestCase k \<or> (structurally_valid k \<and> length k \<le> 7))
   \<and> (\<not> isValidCourseId (courseId (h c)) \<longrightarrow>
         Insert h (Some c) t = (Some (InvalidKey (courseId (h c))), t))
   \<and> (\<not> isValidCourseId_Test (courseId (h c)) \<longrightarrow>
         Insert_Test h (Some c) t = (Some (InvalidKey (courseId (h c))), t))"
  using isValidCourseId_iff[of k] isValidCourseId_Test_iff[of k]
    Insert_invalid[of h c t] Insert_Test_invalid[of h c t]
  by blast

theorem key_format_checks_witness:
  "\<not> isValidCourseId (courseId (invalid_store 0))
   \<and> Insert invalid_store (Some 0) chain_tree = (Some (InvalidKey ''1''), chain_tree)
   \<and> \<not> isValidCourseId_Test (courseId (invalid_store 1))
   \<and> Insert_Test invalid_store (Some 1) chain_tree = (Some (InvalidKey ''ABCDEFGH1''), chain_tree)
   \<and> isValidCourseId ''CS101'' \<and> structurally_valid ''CS101''
   \<and> \<not> structurally_valid ''12345''"
proof -
  have a: "\<not> isValidCourseId (courseId (invalid_store 0))" by code_simp
  have b: "\<not> isValidCourseId_Test (courseId (invalid_store 1))" by code_simp
  have k0: "courseId (invalid_store 0) = ''1''" by code_simp
  have k1: "courseId (invalid_store 1) = ''ABCDEFGH1''" by code_simp
  have c: "isValidCourseId ''CS101''" by code_simp
  have d: "\<not> isValidCourseId ''12345''" by code_simp
  from key_format_checks[of "''CS101''"] c have e: "structurally_valid ''CS101''" by blast
  from key_format_checks[of "''12345''"] d have f: "\<not> structurally_valid ''12345''" by blast
  from key_format_checks[of _ invalid_store 0 chain_tree] a k0
  have g: "Insert invalid_store (Some 0) chain_tree = (Some (InvalidKey ''1''), chain_tree)" by simp
  from key_format_checks[of _ invalid_store 1 chain_tree] b k1
  have i: "Insert_Test invalid_store (Some 1) chain_tree = (Some (InvalidKey ''ABCDEFGH1''), chain_tree)"
    by simp
  from a b c e f g i show ?thesis by blast
qed

text \<open>
  Claim C5 as stated fails in the test-harness build: CIRC is accepted and is not
  structurally valid; CS1234567 is structurally valid, has 9 characters and is rejected.
\<close>

theorem key_format_Test_counterexample:
  "isValidCourseId_Test ''CIRC'' \<and> \<not> structurally_valid ''CIRC''
   \<and> \<not> isValidCourseId_Test ''CS1234567'' \<and> structurally_valid ''CS1234567''
   \<and> length ''CS1234567'' \<le> 20"
proof -
  have a: "isValidCourseId_Test ''CIRC''" by code_simp
  have b: "\<not> isValidCourseId ''CIRC''" by code_simp
  have c: "\<not> isValidCourseId_Test ''CS1234567''" by code_simp
  have d: "isValidCourseId ''CS1234567''" by code_simp
  from a b c d isValidCourseId_iff[of "''CIRC''"] isValidCourseId_iff[of "''CS1234567''"]
  show ?thesis by simp
qed

end
